theory Spec2Isabelle
  imports Main
begin

section \<open>Python values shared by the solvers\<close>

text \<open>
  The solvers are Python programs. A failing list index raises \<open>IndexError\<close>, removing
  an absent element from a set raises \<open>KeyError\<close>, \<open>int("", 2)\<close> raises
  \<open>ValueError\<close>, reading an attribute of \<open>None\<close> raises \<open>AttributeError\<close>, and
  reading a local variable that was never assigned raises \<open>UnboundLocalError\<close>.
  Nothing in the sources catches an exception, so an exception ends the run; it is
  modelled as the left summand of a sum type.
\<close>

datatype error = IndexError | KeyError | ValueError | AttributeError | UnboundLocalError

definition bind_e :: "error + 'a \<Rightarrow> ('a \<Rightarrow> error + 'b) \<Rightarrow> error + 'b" where
  "bind_e x f = (case x of Inl e \<Rightarrow> Inl e | Inr v \<Rightarrow> f v)"

text \<open>
  Python list indexing \<open>xs[i]\<close>: an index in \<open>[0, n)\<close> is used as it is, an index in
  \<open>[-n, 0)\<close> counts from the end, every other index raises.
\<close>

definition py_idx :: "nat \<Rightarrow> int \<Rightarrow> nat option" where
  "py_idx n i =
     (if 0 \<le> i \<and> i < int n then Some (nat i)
      else if - int n \<le> i \<and> i < 0 then Some (nat (int n + i))
      else None)"

section \<open>Peg solitaire: the board and its moves\<close>

text \<open>
  \<open>board\<close> is a list of rows of integers: a positive cell is a peg (its number), a
  negative cell is an empty hole (\<open>EMPTY = -1\<close>), zero is outside the board
  (\<open>VOID = 0\<close>). \<open>N = 7\<close> is the width the move enumeration assumes.
\<close>

type_synonym board = "int list list"

definition EMPTY :: int where "EMPTY = -1"
definition VOID :: int where "VOID = 0"
definition N :: nat where "N = 7"

text \<open>\<open>board[i][j]\<close> read and \<open>board[i][j] = v\<close> written, with Python's indexing.\<close>

definition getitem :: "board \<Rightarrow> int \<Rightarrow> int \<Rightarrow> error + int" where
  "getitem b i j =
     (case py_idx (length b) i of
        None \<Rightarrow> Inl IndexError
      | Some r \<Rightarrow>
          (case py_idx (length (b ! r)) j of
             None \<Rightarrow> Inl IndexError
           | Some c \<Rightarrow> Inr (b ! r ! c)))"

definition setitem :: "board \<Rightarrow> int \<Rightarrow> int \<Rightarrow> int \<Rightarrow> error + board" where
  "setitem b i j v =
     (case py_idx (length b) i of
        None \<Rightarrow> Inl IndexError
      | Some r \<Rightarrow>
          (case py_idx (length (b ! r)) j of
             None \<Rightarrow> Inl IndexError
           | Some c \<Rightarrow> Inr (b[r := (b ! r)[c := v]])))"

text \<open>
  A move is the Python list \<open>[i, col, direction, jumped]\<close>: the cell of the jumping
  peg, one of the strings \<open>"w"\<close> (up), \<open>"a"\<close> (left), \<open>"s"\<close> (down), \<open>"d"\<close> (right),
  and the number of the peg that is jumped over.
\<close>

type_synonym move = "int \<times> int \<times> string \<times> int"

text \<open>
  The state of a \<open>PegSolitaire\<close> object of \<open>dfs.py\<close>: the board (the module's global
  \<open>board\<close>, which is also \<open>self.board\<close>) and \<open>self.moves\<close>.
\<close>

type_synonym peg_state = "board \<times> move list"

subsection \<open>\<open>is_solved\<close>\<close>

text \<open>
  The pegs of row \<open>i\<close>, in column order, as \<open>position.append([i, col])\<close> collects them.
\<close>

definition row_pegs :: "nat \<Rightarrow> int list \<Rightarrow> (nat \<times> nat) list" where
  "row_pegs i row = map (\<lambda>c. (i, c)) (filter (\<lambda>c. row ! c > 0) [0..<length row])"

text \<open>
  \<open>is_solved\<close> of \<open>dfs.py\<close> and \<open>bfs-memory-british.py\<close>: after each row it returns
  \<open>False\<close> when more than one peg has been seen; after the last row it returns \<open>True\<close>
  when the only peg is at \<open>[3, 3]\<close>, and falls off the end (returning \<open>None\<close>)
  otherwise. The result is \<open>Some True\<close>, \<open>Some False\<close> or \<open>None\<close> accordingly;
  \<open>pegs\<close> is the length of \<open>position\<close> throughout.
\<close>

fun is_solved_loop :: "nat \<Rightarrow> int list list \<Rightarrow> (nat \<times> nat) list \<Rightarrow> bool option" where
  "is_solved_loop i [] pos = (if length pos = 1 \<and> pos = [(3, 3)] then Some True else None)"
| "is_solved_loop i (row # rest) pos =
     (let pos' = pos @ row_pegs i row
      in if length pos' > 1 then Some False else is_solved_loop (Suc i) rest pos')"

definition is_solved :: "board \<Rightarrow> bool option" where
  "is_solved b = is_solved_loop 0 b []"

text \<open>
  \<open>is_solved\<close> of \<open>search-sep.py\<close>, where the test of the centre is commented out:
  any single peg counts.
\<close>

fun is_solved_eu_loop :: "nat \<Rightarrow> int list list \<Rightarrow> (nat \<times> nat) list \<Rightarrow> bool option" where
  "is_solved_eu_loop i [] pos = (if length pos = 1 then Some True else None)"
| "is_solved_eu_loop i (row # rest) pos =
     (let pos' = pos @ row_pegs i row
      in if length pos' > 1 then Some False else is_solved_eu_loop (Suc i) rest pos')"

definition is_solved_eu :: "board \<Rightarrow> bool option" where
  "is_solved_eu b = is_solved_eu_loop 0 b []"

text \<open>The truth value Python's \<open>if\<close> gives a result: \<open>None\<close> and \<open>False\<close> are false.\<close>

definition truthy :: "bool option \<Rightarrow> bool" where
  "truthy r = (r = Some True)"

subsection \<open>\<open>get_valid_moves\<close>\<close>

text \<open>
  The four tests of \<open>get_valid_moves\<close> for the peg at row \<open>i\<close>, column \<open>col\<close>. Python's
  \<open>and\<close> evaluates left to right and stops at the first false operand, so a cell is
  read only when the tests before it hold; a read outside a row raises.
\<close>

definition can_w :: "board \<Rightarrow> nat \<Rightarrow> nat \<Rightarrow> error + bool" where
  "can_w b i col =
     (if i > 1 then
        bind_e (getitem b (int i - 2) (int col)) (\<lambda>x.
          if x < 0 then bind_e (getitem b (int i - 1) (int col)) (\<lambda>y. Inr (y > 0))
          else Inr False)
      else Inr False)"

definition can_a :: "board \<Rightarrow> nat \<Rightarrow> nat \<Rightarrow> error + bool" where
  "can_a b i col =
     (if col > 1 then
        bind_e (getitem b (int i) (int col - 2)) (\<lambda>x.
          if x < 0 then bind_e (getitem b (int i) (int col - 1)) (\<lambda>y. Inr (y > 0))
          else Inr False)
      else Inr False)"

definition can_s :: "board \<Rightarrow> nat \<Rightarrow> nat \<Rightarrow> error + bool" where
  "can_s b i col =
     (if i < N - 2 then
        bind_e (getitem b (int i + 2) (int col)) (\<lambda>x.
          if x < 0 then bind_e (getitem b (int i + 1) (int col)) (\<lambda>y. Inr (y > 0))
          else Inr False)
      else Inr False)"

definition can_d :: "board \<Rightarrow> nat \<Rightarrow> nat \<Rightarrow> error + bool" where
  "can_d b i col =
     (if col < N - 2 then
        bind_e (getitem b (int i) (int col + 2)) (\<lambda>x.
          if x < 0 then bind_e (getitem b (int i) (int col + 1)) (\<lambda>y. Inr (y > 0))
          else Inr False)
      else Inr False)"

text \<open>The move appended for each direction; the jumped cell has just been read.\<close>

definition mk_w :: "board \<Rightarrow> nat \<Rightarrow> nat \<Rightarrow> error + move" where
  "mk_w b i col = bind_e (getitem b (int i - 1) (int col)) (\<lambda>v. Inr (int i, int col, ''w'', v))"

definition mk_a :: "board \<Rightarrow> nat \<Rightarrow> nat \<Rightarrow> error + move" where
  "mk_a b i col = bind_e (getitem b (int i) (int col - 1)) (\<lambda>v. Inr (int i, int col, ''a'', v))"

definition mk_s :: "board \<Rightarrow> nat \<Rightarrow> nat \<Rightarrow> error + move" where
  "mk_s b i col = bind_e (getitem b (int i + 1) (int col)) (\<lambda>v. Inr (int i, int col, ''s'', v))"

definition mk_d :: "board \<Rightarrow> nat \<Rightarrow> nat \<Rightarrow> error + move" where
  "mk_d b i col = bind_e (getitem b (int i) (int col + 1)) (\<lambda>v. Inr (int i, int col, ''d'', v))"

text \<open>
  The body of the inner loop in \<open>dfs.py\<close> and \<open>bfs-memory-british.py\<close>: an
  \<open>if\<close>/\<open>elif\<close> chain, so at most one move is appended for a peg, the first
  direction of \<open>w, a, s, d\<close> whose test holds.
\<close>

definition cell_moves :: "board \<Rightarrow> nat \<Rightarrow> nat \<Rightarrow> error + move list" where
  "cell_moves b i col =
     (if b ! i ! col > 0 then
        bind_e (can_w b i col) (\<lambda>w.
          if w then bind_e (mk_w b i col) (\<lambda>m. Inr [m])
          else bind_e (can_a b i col) (\<lambda>a.
            if a then bind_e (mk_a b i col) (\<lambda>m. Inr [m])
            else bind_e (can_s b i col) (\<lambda>s.
              if s then bind_e (mk_s b i col) (\<lambda>m. Inr [m])
              else bind_e (can_d b i col) (\<lambda>d.
                if d then bind_e (mk_d b i col) (\<lambda>m. Inr [m])
                else Inr []))))
      else Inr [])"

text \<open>
  The body of the inner loop in \<open>search-sep.py\<close>: four independent \<open>if\<close>s, so one
  move is appended for every direction whose test holds.
\<close>

definition cell_moves_eu :: "board \<Rightarrow> nat \<Rightarrow> nat \<Rightarrow> error + move list" where
  "cell_moves_eu b i col =
     (if b ! i ! col > 0 then
        bind_e (can_w b i col) (\<lambda>w.
        bind_e (if w then bind_e (mk_w b i col) (\<lambda>m. Inr [m]) else Inr []) (\<lambda>mw.
        bind_e (can_a b i col) (\<lambda>a.
        bind_e (if a then bind_e (mk_a b i col) (\<lambda>m. Inr [m]) else Inr []) (\<lambda>ma.
        bind_e (can_s b i col) (\<lambda>s.
        bind_e (if s then bind_e (mk_s b i col) (\<lambda>m. Inr [m]) else Inr []) (\<lambda>ms.
        bind_e (can_d b i col) (\<lambda>d.
        bind_e (if d then bind_e (mk_d b i col) (\<lambda>m. Inr [m]) else Inr []) (\<lambda>md.
          Inr (mw @ ma @ ms @ md)))))))))
      else Inr [])"

text \<open>
  The cells in the order the two loops visit them: \<open>for i, row in enumerate(board)\<close>,
  \<open>for col in range(len(row))\<close>.
\<close>

definition cells :: "board \<Rightarrow> (nat \<times> nat) list" where
  "cells b = concat (map (\<lambda>i. map (\<lambda>c. (i, c)) [0..<length (b ! i)]) [0..<length b])"

fun scan :: "(nat \<Rightarrow> nat \<Rightarrow> error + move list) \<Rightarrow> (nat \<times> nat) list \<Rightarrow> error + move list" where
  "scan f [] = Inr []"
| "scan f ((i, c) # rest) = bind_e (f i c) (\<lambda>ms. bind_e (scan f rest) (\<lambda>ms'. Inr (ms @ ms')))"

definition get_valid_moves :: "board \<Rightarrow> error + move list" where
  "get_valid_moves b = scan (cell_moves b) (cells b)"

definition get_valid_moves_eu :: "board \<Rightarrow> error + move list" where
  "get_valid_moves_eu b = scan (cell_moves_eu b) (cells b)"

subsection \<open>\<open>make_move\<close> and \<open>undo_move\<close>\<close>

text \<open>
  \<open>make_move\<close> appends the move object to \<open>self.moves\<close>, writes three cells of the
  board and then moves the coordinates kept in the move object to the landing cell. The
  list holds the object itself, so its last element is the move with the new
  coordinates. A direction other than the four strings matches no \<open>case\<close>: only the
  append happens.
\<close>

definition jump :: "board \<Rightarrow> int \<Rightarrow> int \<Rightarrow> int \<Rightarrow> int \<Rightarrow> error + board" where
  "jump b i j di dj =
     bind_e (setitem b (i + di) (j + dj) (- 1)) (\<lambda>b1.
     bind_e (getitem b1 i j) (\<lambda>x.
     bind_e (setitem b1 (i + 2 * di) (j + 2 * dj) x) (\<lambda>b2.
     setitem b2 i j (- 1))))"

definition make_move :: "peg_state \<Rightarrow> move \<Rightarrow> error + peg_state" where
  "make_move st m =
     (case st of (b, ms) \<Rightarrow>
      case m of (i, j, d, v) \<Rightarrow>
        if d = ''w'' then bind_e (jump b i j (- 1) 0) (\<lambda>b'. Inr (b', ms @ [(i - 2, j, d, v)]))
        else if d = ''a'' then bind_e (jump b i j 0 (- 1)) (\<lambda>b'. Inr (b', ms @ [(i, j - 2, d, v)]))
        else if d = ''s'' then bind_e (jump b i j 1 0) (\<lambda>b'. Inr (b', ms @ [(i + 2, j, d, v)]))
        else if d = ''d'' then bind_e (jump b i j 0 1) (\<lambda>b'. Inr (b', ms @ [(i, j + 2, d, v)]))
        else Inr (b, ms @ [m]))"

text \<open>
  \<open>undo_move\<close> pops the last move (an empty list raises) and, from the landing cell the
  move now names, puts the peg back two cells in the opposite direction, empties the
  landing cell and restores the jumped peg from the move's fourth component.
\<close>

definition unjump :: "board \<Rightarrow> int \<Rightarrow> int \<Rightarrow> int \<Rightarrow> int \<Rightarrow> int \<Rightarrow> error + board" where
  "unjump b i j di dj v =
     bind_e (getitem b i j) (\<lambda>x.
     bind_e (setitem b (i + 2 * di) (j + 2 * dj) x) (\<lambda>b1.
     bind_e (setitem b1 i j (- 1)) (\<lambda>b2.
     setitem b2 (i + di) (j + dj) v)))"

definition undo_move :: "peg_state \<Rightarrow> error + peg_state" where
  "undo_move st =
     (case st of (b, ms) \<Rightarrow>
      if ms = [] then Inl IndexError
      else
        (case last ms of (i, j, d, v) \<Rightarrow>
           if d = ''w'' then bind_e (unjump b i j 1 0 v) (\<lambda>b'. Inr (b', butlast ms))
           else if d = ''a'' then bind_e (unjump b i j 0 1 v) (\<lambda>b'. Inr (b', butlast ms))
           else if d = ''s'' then bind_e (unjump b i j (- 1) 0 v) (\<lambda>b'. Inr (b', butlast ms))
           else if d = ''d'' then bind_e (unjump b i j 0 (- 1) v) (\<lambda>b'. Inr (b', butlast ms))
           else Inr (b, butlast ms)))"

subsection \<open>\<open>solve\<close>: exhaustive depth-first search (\<open>dfs.py\<close>)\<close>

text \<open>
  \<open>solve\<close> returns \<open>True\<close> at a solved board; otherwise it takes the moves of
  \<open>get_valid_moves\<close> in order, makes each, recurses, returns \<open>True\<close> as soon as a
  recursive call does, and undoes the move otherwise; after the last move it returns
  \<open>False\<close>. The recursion is bounded here by a fuel argument: the result \<open>None\<close> means
  the fuel ran out, \<open>Some (Inl e)\<close> that the exception \<open>e\<close> ended the run, and
  \<open>Some (Inr (r, st))\<close> that the call returned \<open>r\<close> and left the state \<open>st\<close>.
  \<open>solve_moves rec\<close> is the \<open>for\<close> loop, with \<open>rec\<close> the recursive call
  \<open>self.solve()\<close>.
\<close>

type_synonym solve_result = "(error + bool \<times> peg_state) option"

fun solve_moves :: "(peg_state \<Rightarrow> solve_result) \<Rightarrow> peg_state \<Rightarrow> move list \<Rightarrow> solve_result" where
  "solve_moves rec st [] = Some (Inr (False, st))"
| "solve_moves rec st (m # vs) =
     (case make_move st m of
        Inl e \<Rightarrow> Some (Inl e)
      | Inr st1 \<Rightarrow>
          (case rec st1 of
             None \<Rightarrow> None
           | Some (Inl e) \<Rightarrow> Some (Inl e)
           | Some (Inr (r, st2)) \<Rightarrow>
               if r then Some (Inr (True, st2))
               else
                 (case undo_move st2 of
                    Inl e \<Rightarrow> Some (Inl e)
                  | Inr st3 \<Rightarrow> solve_moves rec st3 vs)))"

primrec solve :: "nat \<Rightarrow> peg_state \<Rightarrow> solve_result" where
  "solve 0 st = None"
| "solve (Suc n) st =
     (if truthy (is_solved (fst st)) then Some (Inr (True, st))
      else
        (case get_valid_moves (fst st) of
           Inl e \<Rightarrow> Some (Inl e)
         | Inr vs \<Rightarrow> solve_moves (solve n) st vs))"

subsection \<open>\<open>dfs\<close>: depth-first search with a visited set (\<open>bfs-memory-british.py\<close>)\<close>

text \<open>
  \<open>encode_board\<close> joins one character per cell, \<open>"1"\<close> for a peg and \<open>"0"\<close> for
  every other cell, and reads the string as a binary number; \<open>int("", 2)\<close> raises
  \<open>ValueError\<close>.
\<close>

definition board_bits :: "board \<Rightarrow> bool list" where
  "board_bits b = concat (map (map (\<lambda>cell. cell > 0)) b)"

definition bits_value :: "bool list \<Rightarrow> int" where
  "bits_value bs = foldl (\<lambda>a x. 2 * a + (if x then 1 else 0)) 0 bs"

definition encode_board :: "board \<Rightarrow> error + int" where
  "encode_board b = (if board_bits b = [] then Inl ValueError else Inr (bits_value (board_bits b)))"

text \<open>
  \<open>dfs\<close> first encodes the board and returns \<open>False\<close> when the code is in \<open>visited\<close>;
  otherwise it adds the code and goes on as \<open>solve\<close> does. The set is shared by all
  recursive calls and is never shrunk, so it is threaded through the result.
\<close>

type_synonym dfs_result = "(error + bool \<times> int set \<times> peg_state) option"

fun dfs_moves :: "(int set \<Rightarrow> peg_state \<Rightarrow> dfs_result) \<Rightarrow> int set \<Rightarrow> peg_state \<Rightarrow> move list \<Rightarrow> dfs_result" where
  "dfs_moves rec V st [] = Some (Inr (False, V, st))"
| "dfs_moves rec V st (m # vs) =
     (case make_move st m of
        Inl e \<Rightarrow> Some (Inl e)
      | Inr st1 \<Rightarrow>
          (case rec V st1 of
             None \<Rightarrow> None
           | Some (Inl e) \<Rightarrow> Some (Inl e)
           | Some (Inr (r, V1, st2)) \<Rightarrow>
               if r then Some (Inr (True, V1, st2))
               else
                 (case undo_move st2 of
                    Inl e \<Rightarrow> Some (Inl e)
                  | Inr st3 \<Rightarrow> dfs_moves rec V1 st3 vs)))"

primrec dfs :: "nat \<Rightarrow> int set \<Rightarrow> peg_state \<Rightarrow> dfs_result" where
  "dfs 0 V st = None"
| "dfs (Suc n) V st =
     (case encode_board (fst st) of
        Inl e \<Rightarrow> Some (Inl e)
      | Inr k \<Rightarrow>
          if k \<in> V then Some (Inr (False, V, st))
          else if truthy (is_solved (fst st)) then Some (Inr (True, insert k V, st))
          else
            (case get_valid_moves (fst st) of
               Inl e \<Rightarrow> Some (Inl e)
             | Inr vs \<Rightarrow> dfs_moves (dfs n) (insert k V) st vs))"

subsection \<open>Notions used to state the properties of the peg boards\<close>

text \<open>A cell inside the board, and the board with one cell replaced.\<close>

definition cellin :: "board \<Rightarrow> nat \<Rightarrow> nat \<Rightarrow> bool" where
  "cellin b r c = (r < length b \<and> c < length (b ! r))"

definition upd :: "board \<Rightarrow> nat \<Rightarrow> nat \<Rightarrow> int \<Rightarrow> board" where
  "upd b r c v = b[r := (b ! r)[c := v]]"

definition cell_at :: "board \<Rightarrow> int \<Rightarrow> int \<Rightarrow> int option" where
  "cell_at b i j =
     (if 0 \<le> i \<and> i < int (length b) \<and> 0 \<le> j \<and> j < int (length (b ! nat i))
      then Some (b ! nat i ! nat j) else None)"

text \<open>The step of each direction string.\<close>

definition dvec :: "string \<Rightarrow> (int \<times> int) option" where
  "dvec d =
     (if d = ''w'' then Some (- 1, 0)
      else if d = ''a'' then Some (0, - 1)
      else if d = ''s'' then Some (1, 0)
      else if d = ''d'' then Some (0, 1)
      else None)"

text \<open>
  A legal move of peg solitaire: a peg at \<open>(i, j)\<close>, next to it in the move's direction
  a peg whose number the move carries, and behind that an empty hole, all three cells
  on the board.
\<close>

definition is_peg :: "int option \<Rightarrow> bool" where
  "is_peg x = (case x of None \<Rightarrow> False | Some v \<Rightarrow> v > 0)"

definition is_hole :: "int option \<Rightarrow> bool" where
  "is_hole x = (case x of None \<Rightarrow> False | Some v \<Rightarrow> v < 0)"

definition legal_dir :: "board \<Rightarrow> int \<Rightarrow> int \<Rightarrow> int \<Rightarrow> int \<Rightarrow> int \<Rightarrow> bool" where
  "legal_dir b i j di dj v =
     (is_peg (cell_at b i j) \<and> cell_at b (i + di) (j + dj) = Some v \<and> v > 0 \<and>
      is_hole (cell_at b (i + 2 * di) (j + 2 * dj)))"

definition legal :: "board \<Rightarrow> move \<Rightarrow> bool" where
  "legal b m =
     (case m of (i, j, d, v) \<Rightarrow>
        (case dvec d of None \<Rightarrow> False | Some (di, dj) \<Rightarrow> legal_dir b i j di dj v))"


text \<open>Every empty hole holds \<open>EMPTY\<close>, the only negative value the sources write.\<close>

definition holes_empty :: "board \<Rightarrow> bool" where
  "holes_empty b = (\<forall>row \<in> set b. \<forall>x \<in> set row. x < 0 \<longrightarrow> x = EMPTY)"

text \<open>The board is a square of \<open>N\<close> rows of \<open>N\<close> cells, as in every \<open>__main__\<close>.\<close>

definition square :: "board \<Rightarrow> bool" where
  "square b = (length b = N \<and> (\<forall>row \<in> set b. length row = N))"

text \<open>The number of pegs on the board.\<close>

definition pegs :: "board \<Rightarrow> nat" where
  "pegs b = length (filter (\<lambda>x. x > 0) (concat b))"

section \<open>Breadth-first search (\<open>search-sep.py\<close>)\<close>

text \<open>
  In \<open>search-sep.py\<close> a \<open>PegSolitaire\<close> object has its own \<open>board\<close>, \<open>moves\<close>,
  \<open>lvl\<close> and \<open>idx\<close>, but \<open>is_solved\<close>, \<open>get_valid_moves\<close>, \<open>make_move\<close> and
  \<open>print_board\<close> read and write the module's global \<open>board\<close>, not \<open>self.board\<close>;
  only \<open>self.moves\<close> belongs to the object. \<open>__main__\<close> builds the root object on the
  global board, so \<open>root.board\<close> is the global board. A node of the queue is a deep
  copy and shares nothing with any other object.
\<close>

record peg_node =
  node_board :: board
  node_moves :: "move list"
  node_lvl :: nat
  node_idx :: nat

text \<open>
  What the loop of \<open>bfs\<close> carries: the global board, the queue, the visited set and the
  counter \<open>idx\<close>. \<open>visited\<close> holds \<open>str(board)\<close>, which is different for different
  boards, so it is modelled as a set of boards.
\<close>

type_synonym bfs_state = "board \<times> peg_node list \<times> board set \<times> nat"

text \<open>
  The body of \<open>for move in curr_board.get_valid_moves()\<close>: the moves are enumerated
  once more for a \<open>print\<close>; \<open>neighbour_board\<close> is built from a deep copy of the dequeued
  node's board and moves; \<open>neighbour_board.make_move(move)\<close> appends to the copy's
  moves and writes the global board; the copy's own board, still that of the dequeued
  node, is what is looked up in \<open>visited\<close> and enqueued.
\<close>

definition expand_move :: "peg_node \<Rightarrow> nat \<Rightarrow> bfs_state \<Rightarrow> move \<Rightarrow> error + bfs_state" where
  "expand_move cur lvl st m =
     (case st of (g, queue, visited, idx) \<Rightarrow>
        bind_e (get_valid_moves_eu g) (\<lambda>printed.
        bind_e (make_move (g, node_moves cur) m) (\<lambda>made.
          let neighbour =
                \<lparr>node_board = node_board cur, node_moves = snd made,
                 node_lvl = lvl, node_idx = idx\<rparr>
          in if node_board neighbour \<notin> visited
             then Inr (fst made, queue @ [neighbour], insert (node_board neighbour) visited, idx + 1)
             else Inr (fst made, queue, visited, idx + 1))))"

fun expand :: "peg_node \<Rightarrow> nat \<Rightarrow> bfs_state \<Rightarrow> move list \<Rightarrow> error + bfs_state" where
  "expand cur lvl st [] = Inr st"
| "expand cur lvl st (m # vs) = bind_e (expand_move cur lvl st m) (\<lambda>st'. expand cur lvl st' vs)"

text \<open>
  The \<open>while queue\<close> loop, bounded by fuel. The result is the value \<open>bfs\<close> returns
  (\<open>None\<close> or the move list) and the global board it leaves.
\<close>

primrec bfs_loop :: "nat \<Rightarrow> bfs_state \<Rightarrow> nat \<Rightarrow> (error + move list option \<times> board) option" where
  "bfs_loop 0 st lvl = None"
| "bfs_loop (Suc n) st lvl =
     (case st of (g, queue, visited, idx) \<Rightarrow>
        (case queue of
           [] \<Rightarrow> Some (Inr (None, g))
         | cur # rest \<Rightarrow>
             if truthy (is_solved_eu g) then Some (Inr (Some (node_moves cur), g))
             else
               (case get_valid_moves_eu g of
                  Inl e \<Rightarrow> Some (Inl e)
                | Inr vs \<Rightarrow>
                    (case expand cur (lvl + 1) (g, rest, visited, idx) vs of
                       Inl e \<Rightarrow> Some (Inl e)
                     | Inr st' \<Rightarrow> bfs_loop n st' (lvl + 1)))))"

text \<open>
  \<open>bfs(root)\<close> for a root built on the global board: the queue starts with a deep
  copy of the root and \<open>visited\<close> with the root's board.
\<close>

definition bfs :: "nat \<Rightarrow> peg_state \<Rightarrow> (error + move list option \<times> board) option" where
  "bfs n root =
     (case root of (g, ms) \<Rightarrow>
        bfs_loop n
          (g, [\<lparr>node_board = g, node_moves = ms, node_lvl = 0, node_idx = 0\<rparr>], {g}, 0) 0)"

section \<open>Sudoku (\<open>solver.py\<close>)\<close>

text \<open>
  The state \<open>solveSudoku\<close> and its nested functions share: the board of one-character
  strings (\<open>'.'\<close> is an empty cell), the sets of values used in each row, column and
  box, and the list of the cells that were empty at the start. \<open>N = len(board)\<close>.
\<close>

record sudoku =
  board :: "char list list"
  rows :: "char set list"
  cols :: "char set list"
  boxes :: "char set list"
  empties :: "(nat \<times> nat) list"

definition init_state :: "char list list \<Rightarrow> sudoku" where
  "init_state g =
     \<lparr>board = g, rows = replicate (length g) {}, cols = replicate (length g) {},
      boxes = replicate (length g) {}, empties = []\<rparr>"

definition box_of :: "nat \<Rightarrow> nat \<Rightarrow> nat" where
  "box_of r c = (r div 3) * 3 + c div 3"

text \<open>\<open>sets[k].add(v)\<close> and \<open>sets[k].remove(v)\<close>; \<open>remove\<close> raises when \<open>v\<close> is absent.\<close>

definition set_add :: "char set list \<Rightarrow> nat \<Rightarrow> char \<Rightarrow> error + char set list" where
  "set_add ss k v = (if k < length ss then Inr (ss[k := insert v (ss ! k)]) else Inl IndexError)"

definition set_remove :: "char set list \<Rightarrow> nat \<Rightarrow> char \<Rightarrow> error + char set list" where
  "set_remove ss k v =
     (if k < length ss then
        (if v \<in> ss ! k then Inr (ss[k := ss ! k - {v}]) else Inl KeyError)
      else Inl IndexError)"

definition grid_get :: "char list list \<Rightarrow> nat \<Rightarrow> nat \<Rightarrow> error + char" where
  "grid_get g r c = (if r < length g \<and> c < length (g ! r) then Inr (g ! r ! c) else Inl IndexError)"

definition grid_set :: "char list list \<Rightarrow> nat \<Rightarrow> nat \<Rightarrow> char \<Rightarrow> error + char list list" where
  "grid_set g r c v =
     (if r < length g \<and> c < length (g ! r) then Inr (g[r := (g ! r)[c := v]]) else Inl IndexError)"

subsection \<open>\<open>find_empties\<close>\<close>

text \<open>The body of the inner loop of \<open>find_empties\<close> for the cell \<open>(i, j)\<close> holding \<open>val\<close>.\<close>

definition note_cell :: "sudoku \<Rightarrow> nat \<Rightarrow> nat \<Rightarrow> char \<Rightarrow> error + sudoku" where
  "note_cell s i j val =
     (if val = CHR ''.'' then Inr (s\<lparr>empties := empties s @ [(i, j)]\<rparr>)
      else
        bind_e (set_add (rows s) i val) (\<lambda>rs.
        bind_e (set_add (cols s) j val) (\<lambda>cs.
        bind_e (set_add (boxes s) (box_of i j) val) (\<lambda>bs.
          Inr (s\<lparr>rows := rs, cols := cs, boxes := bs\<rparr>)))))"

fun find_row :: "sudoku \<Rightarrow> nat \<Rightarrow> nat \<Rightarrow> char list \<Rightarrow> error + sudoku" where
  "find_row s i j [] = Inr s"
| "find_row s i j (val # rest) = bind_e (note_cell s i j val) (\<lambda>s'. find_row s' i (Suc j) rest)"

fun find_rows :: "sudoku \<Rightarrow> nat \<Rightarrow> char list list \<Rightarrow> error + sudoku" where
  "find_rows s i [] = Inr s"
| "find_rows s i (row # rest) = bind_e (find_row s i 0 row) (\<lambda>s'. find_rows s' (Suc i) rest)"

definition find_empties :: "sudoku \<Rightarrow> error + sudoku" where
  "find_empties s = find_rows s 0 (board s)"

subsection \<open>\<open>validMove\<close>\<close>

text \<open>
  The test \<open>d not in rows[r] and d not in cols[c] and d not in boxes[b]\<close>: a set is
  looked up only when the tests before it hold.
\<close>

definition free_digit :: "sudoku \<Rightarrow> nat \<Rightarrow> nat \<Rightarrow> char \<Rightarrow> error + bool" where
  "free_digit s r c d =
     (if r < length (rows s) then
        (if d \<notin> rows s ! r then
           (if c < length (cols s) then
              (if d \<notin> cols s ! c then
                 (if box_of r c < length (boxes s) then Inr (d \<notin> boxes s ! box_of r c)
                  else Inl IndexError)
               else Inr False)
            else Inl IndexError)
         else Inr False)
      else Inl IndexError)"

fun valid_loop :: "sudoku \<Rightarrow> nat \<Rightarrow> nat \<Rightarrow> char list \<Rightarrow> error + char list" where
  "valid_loop s r c [] = Inr []"
| "valid_loop s r c (d # ds) =
     bind_e (free_digit s r c d) (\<lambda>ok.
     bind_e (valid_loop s r c ds) (\<lambda>rest. Inr (if ok then d # rest else rest)))"

definition validMove :: "sudoku \<Rightarrow> nat \<times> nat \<Rightarrow> error + char list" where
  "validMove s pos = (case pos of (r, c) \<Rightarrow> valid_loop s r c ''123456789'')"

subsection \<open>\<open>dfs_rec\<close>\<close>

text \<open>The four statements under \<open># place\<close> and the four under \<open># undo\<close>.\<close>

definition place :: "sudoku \<Rightarrow> nat \<Rightarrow> nat \<Rightarrow> char \<Rightarrow> error + sudoku" where
  "place s r c d =
     bind_e (grid_set (board s) r c d) (\<lambda>g.
     bind_e (set_add (rows s) r d) (\<lambda>rs.
     bind_e (set_add (cols s) c d) (\<lambda>cs.
     bind_e (set_add (boxes s) (box_of r c) d) (\<lambda>bs.
       Inr (s\<lparr>board := g, rows := rs, cols := cs, boxes := bs\<rparr>)))))"

definition unplace :: "sudoku \<Rightarrow> nat \<Rightarrow> nat \<Rightarrow> char \<Rightarrow> error + sudoku" where
  "unplace s r c d =
     bind_e (grid_set (board s) r c (CHR ''.'')) (\<lambda>g.
     bind_e (set_remove (rows s) r d) (\<lambda>rs.
     bind_e (set_remove (cols s) c d) (\<lambda>cs.
     bind_e (set_remove (boxes s) (box_of r c) d) (\<lambda>bs.
       Inr (s\<lparr>board := g, rows := rs, cols := cs, boxes := bs\<rparr>)))))"

type_synonym sudoku_result = "(error + bool \<times> sudoku) option"

text \<open>
  The \<open>for move in validMove(...)\<close> loop, with \<open>rec\<close> the recursive call
  \<open>dfs_rec(idx + 1)\<close>.
\<close>

fun place_moves :: "(sudoku \<Rightarrow> sudoku_result) \<Rightarrow> sudoku \<Rightarrow> nat \<Rightarrow> nat \<Rightarrow> char list \<Rightarrow> sudoku_result" where
  "place_moves rec s r c [] = Some (Inr (False, s))"
| "place_moves rec s r c (d # ds) =
     (case place s r c d of
        Inl e \<Rightarrow> Some (Inl e)
      | Inr s1 \<Rightarrow>
          (case rec s1 of
             None \<Rightarrow> None
           | Some (Inl e) \<Rightarrow> Some (Inl e)
           | Some (Inr (ok, s2)) \<Rightarrow>
               if ok then Some (Inr (True, s2))
               else
                 (case unplace s2 r c d of
                    Inl e \<Rightarrow> Some (Inl e)
                  | Inr s3 \<Rightarrow> place_moves rec s3 r c ds)))"

text \<open>
  \<open>dfs_rec idx\<close>, bounded by fuel as \<open>solve\<close> is. \<open>empties[idx]\<close> raises beyond the
  end of the list.
\<close>

primrec dfs_rec :: "nat \<Rightarrow> nat \<Rightarrow> sudoku \<Rightarrow> sudoku_result" where
  "dfs_rec 0 idx s = None"
| "dfs_rec (Suc n) idx s =
     (if idx = length (empties s) then Some (Inr (True, s))
      else if idx > length (empties s) then Some (Inl IndexError)
      else
        (case empties s ! idx of (r, c) \<Rightarrow>
           (case grid_get (board s) r c of
              Inl e \<Rightarrow> Some (Inl e)
            | Inr ch \<Rightarrow>
                if ch \<noteq> CHR ''.'' then dfs_rec n (Suc idx) s
                else
                  (case validMove s (r, c) of
                     Inl e \<Rightarrow> Some (Inl e)
                   | Inr mv \<Rightarrow> place_moves (dfs_rec n (Suc idx)) s r c mv))))"

text \<open>\<open>solveSudoku\<close>: \<open>find_empties()\<close>, then \<open>dfs_rec(0)\<close>.\<close>

definition solveSudoku :: "nat \<Rightarrow> char list list \<Rightarrow> sudoku_result" where
  "solveSudoku n g =
     (case find_empties (init_state g) of
        Inl e \<Rightarrow> Some (Inl e)
      | Inr s \<Rightarrow> dfs_rec n 0 s)"

text \<open>The digit \<open>d\<close> is in none of the three sets of the cell \<open>(r, c)\<close>.\<close>

definition free_at :: "sudoku \<Rightarrow> nat \<Rightarrow> nat \<Rightarrow> char \<Rightarrow> bool" where
  "free_at s r c d =
     (r < length (rows s) \<and> d \<notin> rows s ! r \<and> c < length (cols s) \<and> d \<notin> cols s ! c \<and>
      box_of r c < length (boxes s) \<and> d \<notin> boxes s ! box_of r c)"


section \<open>Hashiwokakero (\<open>hashi.py\<close>)\<close>

text \<open>
  Islands and bridges are objects that are compared by identity and updated in place.
  An island is named by its index in \<open>p.nodes\<close>, where \<open>parse_map\<close> put it; a bridge is
  named by its index in the list \<open>bridges\<close> of all \<open>Bridge\<close> objects created so far.
  \<open>nodes\<close> holds the first \<open>nislands\<close> entries of \<open>p.nodes\<close> and \<open>edges\<close> the first
  \<open>nbridges\<close> entries of \<open>p.edges\<close>, as references; the two counters are the lengths
  of the lists.
\<close>

definition MAX_ISLANDS :: nat where "MAX_ISLANDS = 100"
definition MAX_BRIDGES :: nat where "MAX_BRIDGES = 200"
definition UP :: nat where "UP = 0"
definition RIGHT :: nat where "RIGHT = 1"
definition DOWN :: nat where "DOWN = 2"
definition LEFT :: nat where "LEFT = 3"
definition DIRECTIONS :: nat where "DIRECTIONS = 4"

record island =
  isl_x :: int
  isl_y :: int
  max_bridges :: int
  curr_bridges :: int
  neighbours :: "nat option list"
  nneighbours :: nat

record bridge =
  island1 :: nat
  island2 :: nat
  direction :: nat
  symbol :: char
  wires :: int
  skip :: bool

record puzzle =
  nodes :: "island list"
  bridges :: "bridge list"
  edges :: "nat list"
  nrows :: nat
  ncols :: nat

definition nislands :: "puzzle \<Rightarrow> nat" where
  "nislands p = length (nodes p)"

definition nbridges :: "puzzle \<Rightarrow> nat" where
  "nbridges p = length (edges p)"

text \<open>
  \<open>p.nodes[k]\<close> followed by the read of an attribute: beyond \<open>nislands\<close> the entry is
  \<open>None\<close>, beyond the list there is no entry.
\<close>

definition get_node :: "puzzle \<Rightarrow> nat \<Rightarrow> error + island" where
  "get_node p k =
     (if k < length (nodes p) then Inr (nodes p ! k)
      else if k < MAX_ISLANDS then Inl AttributeError
      else Inl IndexError)"

text \<open>
  The bridge a reference names. A reference always names a bridge that was created; so
  that the function is total, a reference that names none is given the result
  \<open>AttributeError\<close>.
\<close>

definition get_bridge :: "puzzle \<Rightarrow> nat \<Rightarrow> error + bridge" where
  "get_bridge p e = (if e < length (bridges p) then Inr (bridges p ! e) else Inl AttributeError)"

text \<open>\<open>island.neighbours[dir]\<close>.\<close>

definition get_neighbour :: "island \<Rightarrow> nat \<Rightarrow> error + nat option" where
  "get_neighbour nd d =
     (if d < length (neighbours nd) then Inr (neighbours nd ! d) else Inl IndexError)"

text \<open>
  The test that the bridge joins \<open>island1\<close> and \<open>island2\<close>, in either order;
  \<open>island2\<close> is \<open>None\<close> when there is no neighbour.
\<close>

definition is_match :: "bridge \<Rightarrow> nat \<Rightarrow> nat option \<Rightarrow> bool" where
  "is_match b i1 i2 =
     ((island1 b = i1 \<and> Some (island2 b) = i2) \<or> (Some (island1 b) = i2 \<and> island2 b = i1))"

definition check_solved :: "puzzle \<Rightarrow> bool" where
  "check_solved p = list_all (\<lambda>n. curr_bridges n = max_bridges n) (nodes p)"

subsection \<open>\<open>can_build_bridge\<close>\<close>

text \<open>
  The first loop: at a bridge between the two islands it returns \<open>FALSE\<close> when the
  bridge has three wires and \<open>TRUE\<close> when neither island is full, and goes on
  otherwise. \<open>Some r\<close> is a \<open>return r\<close>, \<open>None\<close> the end of the loop.
\<close>

fun scan_edges :: "puzzle \<Rightarrow> nat \<Rightarrow> nat \<Rightarrow> nat list \<Rightarrow> error + bool option" where
  "scan_edges p i1 i2 [] = Inr None"
| "scan_edges p i1 i2 (e # es) =
     bind_e (get_bridge p e) (\<lambda>b.
       if is_match b i1 (Some i2) then
         (if wires b = 3 then Inr (Some False)
          else
            bind_e (get_node p (island2 b)) (\<lambda>n2.
              if curr_bridges n2 \<noteq> max_bridges n2 then
                bind_e (get_node p (island1 b)) (\<lambda>n1.
                  if curr_bridges n1 \<noteq> max_bridges n1 then Inr (Some True)
                  else scan_edges p i1 i2 es)
              else scan_edges p i1 i2 es))
       else scan_edges p i1 i2 es)"

text \<open>\<open>soln[island.y][island.x] = 1\<close> for every island.\<close>

fun mark_islands :: "board \<Rightarrow> island list \<Rightarrow> error + board" where
  "mark_islands soln [] = Inr soln"
| "mark_islands soln (n # ns) =
     bind_e (setitem soln (isl_y n) (isl_x n) 1) (\<lambda>soln'. mark_islands soln' ns)"

text \<open>
  The cells strictly between an island at \<open>(x, y)\<close> and the island \<open>dist\<close> away in the
  direction \<open>dir\<close>, as \<open>for j in range(1, dist)\<close> visits them, each as (row, column); a
  direction other than the four gives none.
\<close>

definition dist_of :: "island \<Rightarrow> island \<Rightarrow> nat" where
  "dist_of n1 n2 = nat \<bar>isl_x n1 - isl_x n2 + isl_y n1 - isl_y n2\<bar>"

definition span :: "island \<Rightarrow> nat \<Rightarrow> nat \<Rightarrow> (int \<times> int) list" where
  "span n1 dir dist =
     (if dir = UP then map (\<lambda>j. (isl_y n1 - int j, isl_x n1)) [1..<dist]
      else if dir = DOWN then map (\<lambda>j. (isl_y n1 + int j, isl_x n1)) [1..<dist]
      else if dir = LEFT then map (\<lambda>j. (isl_y n1, isl_x n1 - int j)) [1..<dist]
      else if dir = RIGHT then map (\<lambda>j. (isl_y n1, isl_x n1 + int j)) [1..<dist]
      else [])"

fun inc_cells :: "board \<Rightarrow> (int \<times> int) list \<Rightarrow> error + board" where
  "inc_cells soln [] = Inr soln"
| "inc_cells soln ((r, c) # cs) =
     bind_e (getitem soln r c) (\<lambda>v.
     bind_e (setitem soln r c (v + 1)) (\<lambda>soln'. inc_cells soln' cs))"

text \<open>
  The loop over the bridges that marks their cells. It assigns the local variables
  \<open>island1\<close> and \<open>island2\<close>, which are read again after the loop, so they are carried
  along with \<open>soln\<close>.
\<close>

fun mark_bridges :: "puzzle \<Rightarrow> board \<times> nat \<times> nat \<Rightarrow> nat list \<Rightarrow> error + board \<times> nat \<times> nat" where
  "mark_bridges p st [] = Inr st"
| "mark_bridges p st (e # es) =
     bind_e (get_bridge p e) (\<lambda>b.
       if skip b then mark_bridges p st es
       else
         bind_e (get_node p (island1 b)) (\<lambda>n1.
         bind_e (get_node p (island2 b)) (\<lambda>n2.
         bind_e (inc_cells (fst st) (span n1 (direction b) (dist_of n1 n2))) (\<lambda>soln'.
           mark_bridges p (soln', island1 b, island2 b) es))))"

fun any_marked :: "board \<Rightarrow> (int \<times> int) list \<Rightarrow> error + bool" where
  "any_marked soln [] = Inr False"
| "any_marked soln ((r, c) # cs) =
     bind_e (getitem soln r c) (\<lambda>v. if v > 0 then Inr True else any_marked soln cs)"

definition can_build_bridge :: "puzzle \<Rightarrow> nat \<Rightarrow> nat \<Rightarrow> error + bool" where
  "can_build_bridge p k dir =
     bind_e (get_node p k) (\<lambda>nd.
     bind_e (get_neighbour nd dir) (\<lambda>nb.
       case nb of
         None \<Rightarrow> Inr False
       | Some k2 \<Rightarrow>
           bind_e (scan_edges p k k2 (edges p)) (\<lambda>early.
             case early of
               Some r \<Rightarrow> Inr r
             | None \<Rightarrow>
                 bind_e (mark_islands (replicate (nrows p) (replicate (ncols p) 0)) (nodes p)) (\<lambda>soln.
                 bind_e (mark_bridges p (soln, k, k2) (edges p)) (\<lambda>st.
                 bind_e (get_node p (fst (snd st))) (\<lambda>n1.
                 bind_e (get_node p (snd (snd st))) (\<lambda>n2.
                 bind_e (any_marked (fst st) (span n1 dir (dist_of n1 n2))) (\<lambda>crossed.
                   Inr (\<not> crossed)))))))))"

subsection \<open>\<open>add_bridge\<close> and \<open>remove_bridge\<close>\<close>

text \<open>
  \<open>constructBridge\<close> returns the first bridge of \<open>p.edges\<close> between the two islands, or
  a new \<open>Bridge\<close> object with no wire.
\<close>

fun find_bridge :: "puzzle \<Rightarrow> nat \<Rightarrow> nat \<Rightarrow> nat list \<Rightarrow> error + nat option" where
  "find_bridge p i1 i2 [] = Inr None"
| "find_bridge p i1 i2 (e # es) =
     bind_e (get_bridge p e) (\<lambda>b.
       if is_match b i1 (Some i2) then Inr (Some e) else find_bridge p i1 i2 es)"

definition constructBridge :: "puzzle \<Rightarrow> nat \<Rightarrow> nat \<Rightarrow> nat \<Rightarrow> error + puzzle \<times> nat" where
  "constructBridge p i1 i2 dir =
     bind_e (find_bridge p i1 i2 (edges p)) (\<lambda>found.
       case found of
         Some e \<Rightarrow> Inr (p, e)
       | None \<Rightarrow>
           Inr (p\<lparr>bridges := bridges p @
                    [\<lparr>island1 = i1, island2 = i2, direction = dir, symbol = CHR '' '',
                      wires = 0, skip = False\<rparr>]\<rparr>,
                length (bridges p)))"

text \<open>\<open>island.curr_bridges += d\<close> for the island \<open>k\<close>.\<close>

definition bump :: "puzzle \<Rightarrow> nat \<Rightarrow> int \<Rightarrow> error + puzzle" where
  "bump p k d =
     bind_e (get_node p k) (\<lambda>n.
       Inr (p\<lparr>nodes := (nodes p)[k := n\<lparr>curr_bridges := curr_bridges n + d\<rparr>]\<rparr>))"

definition horizontal :: "bridge \<Rightarrow> bool" where
  "horizontal b = (direction b = LEFT \<or> direction b = RIGHT)"

text \<open>
  The statements of \<open>add_bridge\<close> after \<open>bridge = constructBridge(...)\<close>, for the
  bridge \<open>b\<close> that the reference \<open>e\<close> names: nothing happens at three wires; otherwise
  the bridge gets a wire, both islands count one bridge more, and the first wire of a
  bridge also stores the bridge at \<open>p.edges[p.nbridges]\<close>, which raises when the list is
  full.
\<close>

definition add_wire :: "puzzle \<Rightarrow> nat \<Rightarrow> nat \<Rightarrow> nat \<Rightarrow> bridge \<Rightarrow> error + puzzle" where
  "add_wire p k k2 e b =
     (if wires b = 3 then Inr p
      else
        bind_e (bump p k 1) (\<lambda>p1.
        bind_e (bump p1 k2 1) (\<lambda>p2.
          let w = wires b + 1 in
          if w = 1 then
            (if nbridges p2 < MAX_BRIDGES then
               Inr (p2\<lparr>bridges := (bridges p2)
                         [e := b\<lparr>wires := w, symbol := (if horizontal b then CHR ''-'' else CHR ''|'')\<rparr>],
                       edges := edges p2 @ [e]\<rparr>)
             else Inl IndexError)
          else if w = 2 then
            Inr (p2\<lparr>bridges := (bridges p2)
                      [e := b\<lparr>wires := w, symbol := (if horizontal b then CHR ''='' else CHR 0x22)\<rparr>]\<rparr>)
          else if w = 3 then
            Inr (p2\<lparr>bridges := (bridges p2)
                      [e := b\<lparr>wires := w, symbol := (if horizontal b then CHR ''E'' else CHR ''#'')\<rparr>]\<rparr>)
          else Inr (p2\<lparr>bridges := (bridges p2)[e := b\<lparr>wires := w\<rparr>]\<rparr>))))"

text \<open>
  \<open>add_bridge\<close>. Without a neighbour, \<open>constructBridge\<close> makes a bridge to \<open>None\<close>
  and the read of \<open>island2.curr_bridges\<close> raises.
\<close>

definition add_bridge :: "puzzle \<Rightarrow> nat \<Rightarrow> nat \<Rightarrow> error + puzzle" where
  "add_bridge p k dir =
     bind_e (get_node p k) (\<lambda>nd.
     bind_e (get_neighbour nd dir) (\<lambda>nb.
       case nb of
         None \<Rightarrow> Inl AttributeError
       | Some k2 \<Rightarrow>
           bind_e (constructBridge p k k2 dir) (\<lambda>made.
           bind_e (get_bridge (fst made) (snd made)) (\<lambda>b.
             add_wire (fst made) k k2 (snd made) b))))"

text \<open>
  The loop of \<open>remove_bridge\<close> leaves in \<open>bridge\<close> the first bridge between the two
  islands, or else the last bridge of \<open>p.edges\<close>, or \<open>None\<close> when there is no bridge.
\<close>

fun pick_bridge :: "puzzle \<Rightarrow> nat \<Rightarrow> nat option \<Rightarrow> nat option \<Rightarrow> nat list \<Rightarrow> error + nat option" where
  "pick_bridge p i1 i2 cur [] = Inr cur"
| "pick_bridge p i1 i2 cur (e # es) =
     bind_e (get_bridge p e) (\<lambda>b.
       if is_match b i1 i2 then Inr (Some e) else pick_bridge p i1 i2 (Some e) es)"

text \<open>
  The statements of \<open>remove_bridge\<close> after its loop: a bridge without wires is only
  marked \<open>skip\<close>; otherwise it loses a wire and both islands count one bridge less.
\<close>

definition remove_wire :: "puzzle \<Rightarrow> nat \<Rightarrow> nat option \<Rightarrow> nat \<Rightarrow> bridge \<Rightarrow> error + puzzle" where
  "remove_wire p k nb e b =
     (if wires b = 0 then Inr (p\<lparr>bridges := (bridges p)[e := b\<lparr>skip := True\<rparr>]\<rparr>)
      else
        bind_e (bump p k (- 1)) (\<lambda>p1.
          case nb of
            None \<Rightarrow> Inl AttributeError
          | Some k2 \<Rightarrow>
              bind_e (bump p1 k2 (- 1)) (\<lambda>p2.
                let w = wires b - 1 in
                Inr (p2\<lparr>bridges := (bridges p2)
                          [e := b\<lparr>wires := w,
                                 symbol :=
                                   (if w = 1 then (if horizontal b then CHR ''-'' else CHR ''|'')
                                    else if w = 2 then (if horizontal b then CHR ''='' else CHR 0x22)
                                    else CHR '' '')\<rparr>]\<rparr>))))"

definition remove_bridge :: "puzzle \<Rightarrow> nat \<Rightarrow> nat \<Rightarrow> error + puzzle" where
  "remove_bridge p k dir =
     bind_e (get_node p k) (\<lambda>nd.
     bind_e (get_neighbour nd dir) (\<lambda>nb.
     bind_e (pick_bridge p k nb None (edges p)) (\<lambda>picked.
       case picked of
         None \<Rightarrow> Inl AttributeError
       | Some e \<Rightarrow> bind_e (get_bridge p e) (\<lambda>b. remove_wire p k nb e b))))"

subsection \<open>\<open>findBridge\<close> and \<open>solve_map\<close>\<close>

text \<open>
  \<open>findBridge\<close> looks the island up in \<open>p.nodes\<close>, which gives its index, and returns
  that index unless the island is full; \<open>ret\<close> is never assigned when the island is
  \<open>None\<close>.
\<close>

definition findBridge :: "puzzle \<Rightarrow> nat \<Rightarrow> nat option \<Rightarrow> error + nat" where
  "findBridge p idx nb =
     (case nb of
        None \<Rightarrow> Inl UnboundLocalError
      | Some k2 \<Rightarrow>
          if k2 < length (nodes p) then
            (if max_bridges (nodes p ! k2) = curr_bridges (nodes p ! k2) then Inr idx else Inr k2)
          else Inl UnboundLocalError)"

type_synonym hashi_result = "(error + bool \<times> puzzle) option"

text \<open>
  The loop \<open>for dir in range(DIRECTIONS)\<close> of \<open>solve_map\<close>, with \<open>rec\<close> the recursive
  call, and \<open>solve_map\<close> itself, bounded by fuel.
\<close>

fun try_dirs :: "(puzzle \<Rightarrow> nat \<Rightarrow> hashi_result) \<Rightarrow> puzzle \<Rightarrow> nat \<Rightarrow> nat list \<Rightarrow> hashi_result" where
  "try_dirs rec p idx [] = Some (Inr (False, p))"
| "try_dirs rec p idx (dir # ds) =
     (case can_build_bridge p idx dir of
        Inl e \<Rightarrow> Some (Inl e)
      | Inr can \<Rightarrow>
          if \<not> can then try_dirs rec p idx ds
          else
            (case add_bridge p idx dir of
               Inl e \<Rightarrow> Some (Inl e)
             | Inr p1 \<Rightarrow>
                 if check_solved p1 then Some (Inr (True, p1))
                 else
                   (case bind_e (get_node p1 idx) (\<lambda>nd.
                         bind_e (get_neighbour nd dir) (findBridge p1 idx)) of
                      Inl e \<Rightarrow> Some (Inl e)
                    | Inr idx' \<Rightarrow>
                        (case rec p1 idx' of
                           None \<Rightarrow> None
                         | Some (Inl e) \<Rightarrow> Some (Inl e)
                         | Some (Inr (r, p2)) \<Rightarrow>
                             if r then Some (Inr (True, p2))
                             else
                               (case remove_bridge p2 idx dir of
                                  Inl e \<Rightarrow> Some (Inl e)
                                | Inr p3 \<Rightarrow> try_dirs rec p3 idx ds)))))"

primrec solve_map :: "nat \<Rightarrow> puzzle \<Rightarrow> nat \<Rightarrow> hashi_result" where
  "solve_map 0 p idx = None"
| "solve_map (Suc n) p idx =
     (if idx = nislands p then Some (Inr (check_solved p, p))
      else
        (case get_node p idx of
           Inl e \<Rightarrow> Some (Inl e)
         | Inr nd \<Rightarrow> try_dirs (solve_map n) p idx [0..<DIRECTIONS]))"

subsection \<open>Notions used to state the properties of \<open>solve_map\<close>\<close>

text \<open>
  The first bridge of \<open>p.edges\<close> between two islands, which is the one that
  \<open>can_build_bridge\<close>, \<open>constructBridge\<close> and \<open>remove_bridge\<close> all work on, and the
  number of wires between the two islands: those of that bridge, or none.
\<close>

definition first_bridge :: "puzzle \<Rightarrow> nat \<Rightarrow> nat \<Rightarrow> nat option" where
  "first_bridge p a c = find (\<lambda>e. is_match (bridges p ! e) a (Some c)) (edges p)"

definition wires_between :: "puzzle \<Rightarrow> nat \<Rightarrow> nat \<Rightarrow> int" where
  "wires_between p a c = (case first_bridge p a c of None \<Rightarrow> 0 | Some e \<Rightarrow> wires (bridges p ! e))"

text \<open>Every reference in \<open>p.edges\<close> names a bridge, and every such bridge has 0 to 3 wires.\<close>

definition bridges_ok :: "puzzle \<Rightarrow> bool" where
  "bridges_ok p =
     (\<forall>e \<in> set (edges p). e < length (bridges p) \<and>
        0 \<le> wires (bridges p ! e) \<and> wires (bridges p ! e) \<le> 3)"

text \<open>
  The pairs (island, neighbour), one for each direction in which an island has a
  neighbour, and the number of wires that can still be added over all these pairs.
\<close>

definition slots_of :: "nat option list list \<Rightarrow> (nat \<times> nat) list" where
  "slots_of nbs =
     concat (map (\<lambda>k. concat (map (\<lambda>nb. case nb of None \<Rightarrow> [] | Some k2 \<Rightarrow> [(k, k2)]) (nbs ! k)))
       [0..<length nbs])"

definition slots :: "puzzle \<Rightarrow> (nat \<times> nat) list" where
  "slots p = slots_of (map neighbours (nodes p))"

definition room :: "puzzle \<Rightarrow> nat" where
  "room p = sum_list (map (\<lambda>(a, c). nat (3 - wires_between p a c)) (slots p))"

text \<open>
  Two states of a puzzle with the same neighbours for every island and the same number
  of wires between any two islands.
\<close>

definition same_wires :: "puzzle \<Rightarrow> puzzle \<Rightarrow> bool" where
  "same_wires p p' =
     (map neighbours (nodes p') = map neighbours (nodes p) \<and>
      (\<forall>a c. wires_between p' a c = wires_between p a c))"

text \<open>
  The bridges that the islands still require: the sum over the islands of
  \<open>max_bridges - curr_bridges\<close>.
\<close>

definition need :: "puzzle \<Rightarrow> int" where
  "need p = sum_list (map (\<lambda>n. max_bridges n - curr_bridges n) (nodes p))"

subsection \<open>Notions used to state the properties of the Sudoku search\<close>

text \<open>The cells of a grid, row by row.\<close>

definition grid_cells :: "char list list \<Rightarrow> (nat \<times> nat) list" where
  "grid_cells g = concat (map (\<lambda>i. map (\<lambda>j. (i, j)) [0..<length (g ! i)]) [0..<length g])"

text \<open>The values other than \<open>'.'\<close> in the cells of the grid that \<open>P\<close> selects.\<close>

definition vals :: "char list list \<Rightarrow> (nat \<Rightarrow> nat \<Rightarrow> bool) \<Rightarrow> char set" where
  "vals g P =
     (\<lambda>(i, j). g ! i ! j) ` {(i, j) \<in> set (grid_cells g). P i j \<and> g ! i ! j \<noteq> CHR ''.''}"

text \<open>
  The sets agree with the board: \<open>rows[k]\<close> holds the values present in row \<open>k\<close>,
  \<open>cols[k]\<close> those in column \<open>k\<close> and \<open>boxes[k]\<close> those in the cells \<open>(i, j)\<close> with
  \<open>(i // 3) * 3 + j // 3 = k\<close>; there are \<open>N = len(board)\<close> sets of each kind.
\<close>

definition tracked :: "sudoku \<Rightarrow> bool" where
  "tracked s =
     (length (rows s) = length (board s) \<and> length (cols s) = length (board s) \<and>
      length (boxes s) = length (board s) \<and>
      (\<forall>k \<in> set [0..<length (board s)].
         rows s ! k = vals (board s) (\<lambda>i j. i = k) \<and>
         cols s ! k = vals (board s) (\<lambda>i j. j = k) \<and>
         boxes s ! k = vals (board s) (\<lambda>i j. box_of i j = k)))"

text \<open>The empty cells of a grid, row by row.\<close>

definition empty_cells :: "char list list \<Rightarrow> (nat \<times> nat) list" where
  "empty_cells g = filter (\<lambda>(i, j). g ! i ! j = CHR ''.'') (grid_cells g)"

text \<open>A grid of nine rows of nine cells.\<close>

definition nine_by_nine :: "char list list \<Rightarrow> bool" where
  "nine_by_nine g = (length g = 9 \<and> (\<forall>row \<in> set g. length row = 9))"

text \<open>
  The correspondence between the sets and a board of nine rows of nine cells, written
  without the index arithmetic of the code. The values present in a list of cells are its
  elements other than \<open>'.'\<close>; row \<open>i\<close> is \<open>board[i]\<close>, column \<open>j\<close> is
  \<open>[row[j] for row in board]\<close>, and the 3x3 box of the cell \<open>(i, j)\<close> is made of the
  nine cells of rows \<open>3 * (i // 3)\<close> to \<open>3 * (i // 3) + 2\<close> and columns
  \<open>3 * (j // 3)\<close> to \<open>3 * (j // 3) + 2\<close>, as in the loops of \<open>isSolved\<close>.
\<close>

definition present :: "char list \<Rightarrow> char set" where
  "present xs = set (filter (\<lambda>v. v \<noteq> CHR ''.'') xs)"

definition row_digits :: "char list list \<Rightarrow> nat \<Rightarrow> char set" where
  "row_digits g i = present (g ! i)"

definition col_digits :: "char list list \<Rightarrow> nat \<Rightarrow> char set" where
  "col_digits g j = present (map (\<lambda>row. row ! j) g)"

definition box_cells :: "nat \<Rightarrow> nat \<Rightarrow> (nat \<times> nat) list" where
  "box_cells i j =
     concat (map (\<lambda>a. map (\<lambda>b. (3 * (i div 3) + a, 3 * (j div 3) + b)) [0..<3]) [0..<3])"

definition box_digits :: "char list list \<Rightarrow> nat \<Rightarrow> nat \<Rightarrow> char set" where
  "box_digits g i j = present (map (\<lambda>(a, b). g ! a ! b) (box_cells i j))"

text \<open>
  There are nine sets of each kind and, for every cell \<open>(i, j)\<close> of the board,
  \<open>rows[i]\<close> is the set of the values present in row \<open>i\<close>, \<open>cols[j]\<close> that of column
  \<open>j\<close>, and \<open>boxes[(i // 3) * 3 + j // 3]\<close> that of the 3x3 box of \<open>(i, j)\<close>.
\<close>

definition agrees :: "sudoku \<Rightarrow> bool" where
  "agrees s =
     (length (rows s) = 9 \<and> length (cols s) = 9 \<and> length (boxes s) = 9 \<and>
      (\<forall>i \<in> set [0..<9]. \<forall>j \<in> set [0..<9].
         rows s ! i = row_digits (board s) i \<and>
         cols s ! j = col_digits (board s) j \<and>
         boxes s ! ((i div 3) * 3 + j div 3) = box_digits (board s) i j))"

text \<open>The values in the row, the column and the 3x3 box of the cell \<open>(r, c)\<close>.\<close>

definition peers :: "char list list \<Rightarrow> nat \<Rightarrow> nat \<Rightarrow> char set" where
  "peers g r c = row_digits g r \<union> col_digits g c \<union> box_digits g r c"

section \<open>Example positions\<close>

text \<open>
  A board of the British shape with two pegs in the top row and every other hole
  empty: the only move jumps peg 1 over peg 2 to the right, after which one peg is left
  away from the centre.
\<close>

definition board_two_pegs :: board where
  "board_two_pegs =
     [[0, 0, 1, 2, - 1, 0, 0],
      [0, 0, - 1, - 1, - 1, 0, 0],
      [- 1, - 1, - 1, - 1, - 1, - 1, - 1],
      [- 1, - 1, - 1, - 1, - 1, - 1, - 1],
      [- 1, - 1, - 1, - 1, - 1, - 1, - 1],
      [0, 0, - 1, - 1, - 1, 0, 0],
      [0, 0, - 1, - 1, - 1, 0, 0]]"

text \<open>
  A Sudoku grid whose only empty cell is the top left one; its row already holds the
  digits 1 to 8 and its column holds 9, so no digit can be placed.
\<close>

definition grid_stuck :: "char list list" where
  "grid_stuck =
     [''.12345678'', ''945678123'', ''789123456'', ''234567891'', ''567891234'',
      ''891234567'', ''345678912'', ''678912345'', ''812345679'']"

text \<open>A solved grid with its top left cell (a 5) emptied.\<close>

definition grid_one_hole :: "char list list" where
  "grid_one_hole =
     [''.34678912'', ''672195348'', ''198342567'', ''859761423'', ''426853791'',
      ''713924856'', ''961537284'', ''287419635'', ''345286179'']"

text \<open>A peg at the centre that can jump up and can jump left.\<close>

definition board_fork :: board where
  "board_fork =
     [[0, 0, - 1, - 1, - 1, 0, 0],
      [0, 0, - 1, - 1, - 1, 0, 0],
      [- 1, - 1, - 1, 2, - 1, - 1, - 1],
      [- 1, - 1, 3, 1, - 1, - 1, - 1],
      [- 1, - 1, - 1, - 1, - 1, - 1, - 1],
      [0, 0, - 1, - 1, - 1, 0, 0],
      [0, 0, - 1, - 1, - 1, 0, 0]]"

text \<open>The board of \<open>__main__\<close> in \<open>search-sep.py\<close>.\<close>

definition board_european :: board where
  "board_european =
     [[0, 0, 1, 2, 3, 0, 0],
      [0, 4, 5, 6, 7, 8, 0],
      [9, 10, 11, 12, 13, 14, 15],
      [16, 17, 18, 36, 19, 20, 21],
      [22, 23, 24, 25, 26, 27, 28],
      [0, 29, 30, 31, 32, 33, 0],
      [0, 0, 34, 35, - 1, 0, 0]]"

text \<open>
  The puzzle that \<open>parse_map\<close> builds from the map \<open>1 1\<close>: two islands in one row, at
  columns 0 and 2, each requiring one bridge and each the neighbour of the other, and no
  bridge yet.
\<close>

definition puzzle_two_islands :: puzzle where
  "puzzle_two_islands =
     \<lparr>nodes =
        [\<lparr>isl_x = 0, isl_y = 0, max_bridges = 1, curr_bridges = 0,
          neighbours = [None, Some 1, None, None], nneighbours = 1\<rparr>,
         \<lparr>isl_x = 2, isl_y = 0, max_bridges = 1, curr_bridges = 0,
          neighbours = [None, None, None, Some 0], nneighbours = 1\<rparr>],
      bridges = [], edges = [], nrows = 1, ncols = 3\<rparr>"

section \<open>Lemmas\<close>

lemma py_idx_nat: "k < n \<Longrightarrow> py_idx n (int k) = Some k"
  by (simp add: py_idx_def)

lemma getitem_nat: "cellin b r c \<Longrightarrow> getitem b (int r) (int c) = Inr (b ! r ! c)"
  by (simp add: getitem_def cellin_def py_idx_nat)

lemma setitem_nat: "cellin b r c \<Longrightarrow> setitem b (int r) (int c) v = Inr (upd b r c v)"
  by (simp add: setitem_def cellin_def py_idx_nat upd_def)

lemma length_upd [simp]: "length (upd b r c v) = length b"
  by (simp add: upd_def)

lemma length_row_upd [simp]: "length (upd b r c v ! r') = length (b ! r')"
  by (cases "r < length b"; cases "r = r'") (auto simp: upd_def list_update_beyond)

lemma cellin_upd [simp]: "cellin (upd b r c v) r' c' = cellin b r' c'"
  by (simp add: cellin_def)

lemma nth_upd: "cellin b r' c' \<Longrightarrow> upd b r c v ! r' ! c' = (if r = r' \<and> c = c' then v else b ! r' ! c')"
  by (cases "r = r'"; cases "c = c'") (auto simp: upd_def cellin_def)

lemma board_ext:
  assumes "length a = length b"
    and "\<And>r. r < length b \<Longrightarrow> length (a ! r) = length (b ! r)"
    and "\<And>r c. cellin b r c \<Longrightarrow> a ! r ! c = b ! r ! c"
  shows "a = b"
  using assms by (auto simp: list_eq_iff_nth_eq cellin_def)

lemma jump_nat:
  assumes "cellin b r0 c0" "cellin b r1 c1" "cellin b r2 c2"
    and "int r1 = int r0 + di" "int c1 = int c0 + dj"
    and "int r2 = int r0 + 2 * di" "int c2 = int c0 + 2 * dj"
  shows "jump b (int r0) (int c0) di dj =
           Inr (upd (upd (upd b r1 c1 (- 1)) r2 c2 (upd b r1 c1 (- 1) ! r0 ! c0)) r0 c0 (- 1))"
proof -
  have 1: "setitem b (int r0 + di) (int c0 + dj) (- 1) = Inr (upd b r1 c1 (- 1))"
    using setitem_nat[OF assms(2)] assms(4,5) by simp
  have 2: "getitem (upd b r1 c1 (- 1)) (int r0) (int c0) = Inr (upd b r1 c1 (- 1) ! r0 ! c0)"
    using assms(1) by (simp add: getitem_nat)
  have 3: "setitem (upd b r1 c1 (- 1)) (int r0 + 2 * di) (int c0 + 2 * dj) x = Inr (upd (upd b r1 c1 (- 1)) r2 c2 x)" for x
    using setitem_nat[of "upd b r1 c1 (- 1)" r2 c2 x] assms(3,6,7) by simp
  show ?thesis
    using assms(1) by (simp add: jump_def bind_e_def 1 2 3 setitem_nat)
qed

lemma unjump_nat:
  assumes "cellin b r0 c0" "cellin b r1 c1" "cellin b r2 c2"
    and "int r1 = int r0 + di" "int c1 = int c0 + dj"
    and "int r2 = int r0 + 2 * di" "int c2 = int c0 + 2 * dj"
  shows "unjump b (int r0) (int c0) di dj v =
           Inr (upd (upd (upd b r2 c2 (b ! r0 ! c0)) r0 c0 (- 1)) r1 c1 v)"
proof -
  have 1: "setitem b (int r0 + 2 * di) (int c0 + 2 * dj) x = Inr (upd b r2 c2 x)" for x
    using setitem_nat[OF assms(3)] assms(6,7) by simp
  have 3: "setitem b' (int r0 + di) (int c0 + dj) x = Inr (upd b' r1 c1 x)" if "cellin b' r1 c1" for x b'
    using setitem_nat[OF that] assms(4,5) by simp
  show ?thesis
    using assms(1,2) by (simp add: unjump_def bind_e_def 1 3 getitem_nat setitem_nat)
qed

lemma getitem_cell_at:
  "0 \<le> i \<Longrightarrow> 0 \<le> j \<Longrightarrow>
   getitem b i j = (case cell_at b i j of None \<Rightarrow> Inl IndexError | Some v \<Rightarrow> Inr v)"
  by (auto simp: getitem_def py_idx_def cell_at_def)

lemma cell_at_nat: "cellin b r c \<Longrightarrow> cell_at b (int r) (int c) = Some (b ! r ! c)"
  by (simp add: cell_at_def cellin_def)

lemma cell_at_SomeD:
  "cell_at b i j = Some v \<Longrightarrow> \<exists>r c. i = int r \<and> j = int c \<and> cellin b r c \<and> b ! r ! c = v"
  by (rule exI[of _ "nat i"], rule exI[of _ "nat j"])
     (auto simp: cell_at_def cellin_def split: if_splits)

lemma bind_e_Inr: "bind_e x f = Inr y \<longleftrightarrow> (\<exists>v. x = Inr v \<and> f v = Inr y)"
  by (cases x) (auto simp: bind_e_def)

lemma getitem_Inr_cell_at: "0 \<le> i \<Longrightarrow> 0 \<le> j \<Longrightarrow> getitem b i j = Inr v \<longleftrightarrow> cell_at b i j = Some v"
  by (simp add: getitem_cell_at split: option.splits)

lemma can_w_iff:
  "can_w b i c = Inr True \<longleftrightarrow>
   1 < i \<and> is_hole (cell_at b (int i - 2) (int c)) \<and> is_peg (cell_at b (int i - 1) (int c))"
  by (cases "1 < i")
     (auto simp: can_w_def bind_e_Inr getitem_Inr_cell_at is_hole_def is_peg_def split: if_splits option.splits)


lemma can_a_iff:
  "can_a b i c = Inr True \<longleftrightarrow>
   1 < c \<and> is_hole (cell_at b (int i) (int c - 2)) \<and> is_peg (cell_at b (int i) (int c - 1))"
  by (cases "1 < c")
     (auto simp: can_a_def bind_e_Inr getitem_Inr_cell_at is_hole_def is_peg_def split: if_splits option.splits)

lemma can_s_iff:
  "can_s b i c = Inr True \<longleftrightarrow>
   i < N - 2 \<and> is_hole (cell_at b (int i + 2) (int c)) \<and> is_peg (cell_at b (int i + 1) (int c))"
  by (cases "i < N - 2")
     (auto simp: can_s_def bind_e_Inr getitem_Inr_cell_at is_hole_def is_peg_def split: if_splits option.splits)

lemma can_d_iff:
  "can_d b i c = Inr True \<longleftrightarrow>
   c < N - 2 \<and> is_hole (cell_at b (int i) (int c + 2)) \<and> is_peg (cell_at b (int i) (int c + 1))"
  by (cases "c < N - 2")
     (auto simp: can_d_def bind_e_Inr getitem_Inr_cell_at is_hole_def is_peg_def split: if_splits option.splits)

lemma mk_w_iff: "0 < i \<Longrightarrow> mk_w b i c = Inr m \<longleftrightarrow> (\<exists>v. cell_at b (int i - 1) (int c) = Some v \<and> m = (int i, int c, ''w'', v))"
  by (auto simp: mk_w_def bind_e_Inr getitem_Inr_cell_at)

lemma mk_a_iff: "0 < c \<Longrightarrow> mk_a b i c = Inr m \<longleftrightarrow> (\<exists>v. cell_at b (int i) (int c - 1) = Some v \<and> m = (int i, int c, ''a'', v))"
  by (auto simp: mk_a_def bind_e_Inr getitem_Inr_cell_at)

lemma mk_s_iff: "mk_s b i c = Inr m \<longleftrightarrow> (\<exists>v. cell_at b (int i + 1) (int c) = Some v \<and> m = (int i, int c, ''s'', v))"
  by (auto simp: mk_s_def bind_e_Inr getitem_Inr_cell_at)

lemma mk_d_iff: "mk_d b i c = Inr m \<longleftrightarrow> (\<exists>v. cell_at b (int i) (int c + 1) = Some v \<and> m = (int i, int c, ''d'', v))"
  by (auto simp: mk_d_def bind_e_Inr getitem_Inr_cell_at)

lemma legal_w:
  assumes "can_w b i c = Inr True" "mk_w b i c = Inr m" "cellin b i c" "b ! i ! c > 0"
  shows "legal b m"
proof -
  from assms(1) have i: "1 < i" and h: "is_hole (cell_at b (int i - 2) (int c))"
    and p: "is_peg (cell_at b (int i - 1) (int c))" by (simp_all add: can_w_iff)
  from assms(2) i obtain v where v: "cell_at b (int i - 1) (int c) = Some v" and m: "m = (int i, int c, ''w'', v)"
    by (auto simp: mk_w_iff)
  show ?thesis using h p v assms(3,4)
    by (simp add: m legal_def dvec_def legal_dir_def cell_at_nat is_peg_def)
qed

lemma legal_a:
  assumes "can_a b i c = Inr True" "mk_a b i c = Inr m" "cellin b i c" "b ! i ! c > 0"
  shows "legal b m"
proof -
  from assms(1) have i: "1 < c" and h: "is_hole (cell_at b (int i) (int c - 2))"
    and p: "is_peg (cell_at b (int i) (int c - 1))" by (simp_all add: can_a_iff)
  from assms(2) i obtain v where v: "cell_at b (int i) (int c - 1) = Some v" and m: "m = (int i, int c, ''a'', v)"
    by (auto simp: mk_a_iff)
  show ?thesis using h p v assms(3,4)
    by (simp add: m legal_def dvec_def legal_dir_def cell_at_nat is_peg_def)
qed

lemma legal_s:
  assumes "can_s b i c = Inr True" "mk_s b i c = Inr m" "cellin b i c" "b ! i ! c > 0"
  shows "legal b m"
proof -
  from assms(1) have h: "is_hole (cell_at b (int i + 2) (int c))"
    and p: "is_peg (cell_at b (int i + 1) (int c))" by (simp_all add: can_s_iff)
  from assms(2) obtain v where v: "cell_at b (int i + 1) (int c) = Some v" and m: "m = (int i, int c, ''s'', v)"
    by (auto simp: mk_s_iff)
  show ?thesis using h p v assms(3,4)
    by (simp add: m legal_def dvec_def legal_dir_def cell_at_nat is_peg_def)
qed

lemma legal_d:
  assumes "can_d b i c = Inr True" "mk_d b i c = Inr m" "cellin b i c" "b ! i ! c > 0"
  shows "legal b m"
proof -
  from assms(1) have h: "is_hole (cell_at b (int i) (int c + 2))"
    and p: "is_peg (cell_at b (int i) (int c + 1))" by (simp_all add: can_d_iff)
  from assms(2) obtain v where v: "cell_at b (int i) (int c + 1) = Some v" and m: "m = (int i, int c, ''d'', v)"
    by (auto simp: mk_d_iff)
  show ?thesis using h p v assms(3,4)
    by (simp add: m legal_def dvec_def legal_dir_def cell_at_nat is_peg_def)
qed

lemma try_one:
  "bind_e mk (\<lambda>m. Inr [m]) = Inr l \<Longrightarrow> x \<in> set l \<Longrightarrow> mk = Inr x"
  by (auto simp: bind_e_Inr)

lemma cell_moves_sound:
  assumes "cell_moves b i c = Inr l" "cellin b i c" "m \<in> set l"
  shows "legal b m"
proof -
  have pos: "b ! i ! c > 0" using assms(1,3) by (auto simp: cell_moves_def split: if_splits)
  from assms(1) pos obtain w where w: "can_w b i c = Inr w"
    and r1: "(if w then bind_e (mk_w b i c) (\<lambda>m. Inr [m])
          else bind_e (can_a b i c) (\<lambda>a.
            if a then bind_e (mk_a b i c) (\<lambda>m. Inr [m])
            else bind_e (can_s b i c) (\<lambda>s.
              if s then bind_e (mk_s b i c) (\<lambda>m. Inr [m])
              else bind_e (can_d b i c) (\<lambda>d.
                if d then bind_e (mk_d b i c) (\<lambda>m. Inr [m])
                else Inr [])))) = Inr l"
    by (auto simp: cell_moves_def bind_e_Inr)
  show ?thesis
  proof (cases w)
    case True
    with r1 assms(3) have "mk_w b i c = Inr m" by (auto dest: try_one)
    then show ?thesis using w True assms(2) pos by (auto intro: legal_w)
  next
    case False
    with r1 obtain a where a: "can_a b i c = Inr a"
      and r2: "(if a then bind_e (mk_a b i c) (\<lambda>m. Inr [m])
            else bind_e (can_s b i c) (\<lambda>s.
              if s then bind_e (mk_s b i c) (\<lambda>m. Inr [m])
              else bind_e (can_d b i c) (\<lambda>d.
                if d then bind_e (mk_d b i c) (\<lambda>m. Inr [m])
                else Inr []))) = Inr l"
      by (auto simp: bind_e_Inr)
    show ?thesis
    proof (cases a)
      case True
      with r2 assms(3) have "mk_a b i c = Inr m" by (auto dest: try_one)
      then show ?thesis using a True assms(2) pos by (auto intro: legal_a)
    next
      case False
      with r2 obtain s where s: "can_s b i c = Inr s"
        and r3: "(if s then bind_e (mk_s b i c) (\<lambda>m. Inr [m])
              else bind_e (can_d b i c) (\<lambda>d.
                if d then bind_e (mk_d b i c) (\<lambda>m. Inr [m])
                else Inr [])) = Inr l"
        by (auto simp: bind_e_Inr)
      show ?thesis
      proof (cases s)
        case True
        with r3 assms(3) have "mk_s b i c = Inr m" by (auto dest: try_one)
        then show ?thesis using s True assms(2) pos by (auto intro: legal_s)
      next
        case False
        with r3 obtain d where d: "can_d b i c = Inr d"
          and r4: "(if d then bind_e (mk_d b i c) (\<lambda>m. Inr [m]) else Inr []) = Inr l"
          by (auto simp: bind_e_Inr)
        show ?thesis
        proof (cases d)
          case True
          with r4 assms(3) have "mk_d b i c = Inr m" by (auto dest: try_one)
          then show ?thesis using d True assms(2) pos by (auto intro: legal_d)
        next
          case False
          with r4 assms(3) show ?thesis by simp
        qed
      qed
    qed
  qed
qed

lemma try_dir_mem:
  "(if ok then bind_e mk (\<lambda>m. Inr [m]) else Inr []) = Inr l \<Longrightarrow> x \<in> set l \<Longrightarrow> ok \<and> mk = Inr x"
  by (cases ok) (auto simp: bind_e_Inr)

lemma cell_moves_eu_sound:
  assumes "cell_moves_eu b i c = Inr l" "cellin b i c" "m \<in> set l"
  shows "legal b m"
proof -
  have pos: "b ! i ! c > 0" using assms(1,3) by (auto simp: cell_moves_eu_def split: if_splits)
  from assms(1) pos obtain w mw a ma s ms d md where
    w: "can_w b i c = Inr w" and mw: "(if w then bind_e (mk_w b i c) (\<lambda>m. Inr [m]) else Inr []) = Inr mw"
    and a: "can_a b i c = Inr a" and ma: "(if a then bind_e (mk_a b i c) (\<lambda>m. Inr [m]) else Inr []) = Inr ma"
    and s: "can_s b i c = Inr s" and ms: "(if s then bind_e (mk_s b i c) (\<lambda>m. Inr [m]) else Inr []) = Inr ms"
    and d: "can_d b i c = Inr d" and md: "(if d then bind_e (mk_d b i c) (\<lambda>m. Inr [m]) else Inr []) = Inr md"
    and l: "l = mw @ ma @ ms @ md"
    by (simp add: cell_moves_eu_def bind_e_Inr split del: if_split) blast
  from assms(3) l consider "m \<in> set mw" | "m \<in> set ma" | "m \<in> set ms" | "m \<in> set md" by auto
  then show ?thesis
  proof cases
    case 1
    from try_dir_mem[OF mw 1] w show ?thesis using assms(2) pos by (auto intro: legal_w)
  next
    case 2
    from try_dir_mem[OF ma 2] a show ?thesis using assms(2) pos by (auto intro: legal_a)
  next
    case 3
    from try_dir_mem[OF ms 3] s show ?thesis using assms(2) pos by (auto intro: legal_s)
  next
    case 4
    from try_dir_mem[OF md 4] d show ?thesis using assms(2) pos by (auto intro: legal_d)
  qed
qed

lemma scan_mem:
  "scan f cs = Inr ms \<Longrightarrow> m \<in> set ms \<Longrightarrow> \<exists>i c l. (i, c) \<in> set cs \<and> f i c = Inr l \<and> m \<in> set l"
proof (induction cs arbitrary: ms)
  case Nil
  then show ?case by simp
next
  case (Cons p cs)
  obtain i c where p: "p = (i, c)" by (cases p)
  from Cons.prems(1) obtain l ms' where l: "f i c = Inr l" and r: "scan f cs = Inr ms'" and ms: "ms = l @ ms'"
    by (auto simp: p bind_e_Inr)
  show ?case
  proof (cases "m \<in> set l")
    case True
    then show ?thesis using l p by auto
  next
    case False
    then have "m \<in> set ms'" using Cons.prems(2) ms by simp
    from Cons.IH[OF r this] show ?thesis by auto
  qed
qed

lemma set_cells: "set (cells b) = {(i, c). cellin b i c}"
  by (auto simp: cells_def cellin_def)

lemma get_valid_moves_sound:
  assumes "get_valid_moves b = Inr vs" "m \<in> set vs"
  shows "legal b m"
proof -
  from scan_mem[OF assms(1)[unfolded get_valid_moves_def] assms(2)]
  obtain i c l where "(i, c) \<in> set (cells b)" "cell_moves b i c = Inr l" "m \<in> set l" by blast
  then show ?thesis by (auto simp: set_cells intro: cell_moves_sound)
qed

lemma get_valid_moves_eu_sound:
  assumes "get_valid_moves_eu b = Inr vs" "m \<in> set vs"
  shows "legal b m"
proof -
  from scan_mem[OF assms(1)[unfolded get_valid_moves_eu_def] assms(2)]
  obtain i c l where "(i, c) \<in> set (cells b)" "cell_moves_eu b i c = Inr l" "m \<in> set l" by blast
  then show ?thesis by (auto simp: set_cells intro: cell_moves_eu_sound)
qed

lemma jump_unjump:
  assumes c0: "cellin b r0 c0" and c1: "cellin b r1 c1" and c2: "cellin b r2 c2"
    and r1: "int r1 = int r0 + di" and k1: "int c1 = int c0 + dj"
    and r2: "int r2 = int r0 + 2 * di" and k2: "int c2 = int c0 + 2 * dj"
    and nz: "di \<noteq> 0 \<or> dj \<noteq> 0"
  shows "\<exists>b1. jump b (int r0) (int c0) di dj = Inr b1 \<and>
           unjump b1 (int r2) (int c2) (- di) (- dj) (b ! r1 ! c1) = Inr (upd b r2 c2 (- 1))"
proof -
  define b1 where "b1 = upd (upd (upd b r1 c1 (- 1)) r2 c2 (upd b r1 c1 (- 1) ! r0 ! c0)) r0 c0 (- 1)"
  have j: "jump b (int r0) (int c0) di dj = Inr b1"
    unfolding b1_def by (rule jump_nat[OF c0 c1 c2 r1 k1 r2 k2])
  have d01: "\<not> (r1 = r0 \<and> c1 = c0)" using r1 k1 nz by auto
  have d02: "\<not> (r2 = r0 \<and> c2 = c0)" using r2 k2 nz by auto
  have d12: "\<not> (r2 = r1 \<and> c2 = c1)" using r1 k1 r2 k2 nz by auto
  have in1: "cellin b1 r0 c0" "cellin b1 r1 c1" "cellin b1 r2 c2"
    using c0 c1 c2 by (simp_all add: b1_def)
  have u: "unjump b1 (int r2) (int c2) (- di) (- dj) (b ! r1 ! c1) =
             Inr (upd (upd (upd b1 r0 c0 (b1 ! r2 ! c2)) r2 c2 (- 1)) r1 c1 (b ! r1 ! c1))"
    by (rule unjump_nat[OF in1(3) in1(2) in1(1)]) (use r1 k1 r2 k2 in auto)
  have e: "upd (upd (upd b1 r0 c0 (b1 ! r2 ! c2)) r2 c2 (- 1)) r1 c1 (b ! r1 ! c1) = upd b r2 c2 (- 1)"
  proof (rule board_ext)
    show "length (upd (upd (upd b1 r0 c0 (b1 ! r2 ! c2)) r2 c2 (- 1)) r1 c1 (b ! r1 ! c1)) = length (upd b r2 c2 (- 1))"
      by (simp add: b1_def)
  next
    fix r assume "r < length (upd b r2 c2 (- 1))"
    show "length (upd (upd (upd b1 r0 c0 (b1 ! r2 ! c2)) r2 c2 (- 1)) r1 c1 (b ! r1 ! c1) ! r) = length (upd b r2 c2 (- 1) ! r)"
      by (simp add: b1_def)
  next
    fix r c assume "cellin (upd b r2 c2 (- 1)) r c"
    then have rc: "cellin b r c" by simp
    have x: "b1 ! r2 ! c2 = b ! r0 ! c0"
      using c0 c1 c2 d01 d02 d12 by (auto simp: b1_def nth_upd)
    show "upd (upd (upd b1 r0 c0 (b1 ! r2 ! c2)) r2 c2 (- 1)) r1 c1 (b ! r1 ! c1) ! r ! c = upd b r2 c2 (- 1) ! r ! c"
      using rc d01 d02 d12 unfolding x by (auto simp: b1_def nth_upd)
  qed
  show ?thesis using j u e by simp
qed

lemma legal_dirD:
  assumes "legal_dir b i j di dj v"
  shows "\<exists>r0 c0 r1 c1 r2 c2. i = int r0 \<and> j = int c0 \<and> int r1 = int r0 + di \<and> int c1 = int c0 + dj \<and>
           int r2 = int r0 + 2 * di \<and> int c2 = int c0 + 2 * dj \<and>
           cellin b r0 c0 \<and> cellin b r1 c1 \<and> cellin b r2 c2 \<and>
           b ! r0 ! c0 > 0 \<and> b ! r1 ! c1 = v \<and> v > 0 \<and> b ! r2 ! c2 < 0"
proof -
  from assms obtain x z where x: "cell_at b i j = Some x" "x > 0"
    and y: "cell_at b (i + di) (j + dj) = Some v" "v > 0"
    and z: "cell_at b (i + 2 * di) (j + 2 * dj) = Some z" "z < 0"
    by (auto simp: legal_dir_def is_peg_def is_hole_def split: option.splits)
  from cell_at_SomeD[OF x(1)] obtain r0 c0 where 0: "i = int r0" "j = int c0" "cellin b r0 c0" "b ! r0 ! c0 = x" by blast
  from cell_at_SomeD[OF y(1)] obtain r1 c1 where 1: "i + di = int r1" "j + dj = int c1" "cellin b r1 c1" "b ! r1 ! c1 = v" by blast
  from cell_at_SomeD[OF z(1)] obtain r2 c2 where 2: "i + 2 * di = int r2" "j + 2 * dj = int c2" "cellin b r2 c2" "b ! r2 ! c2 = z" by blast
  show ?thesis
    using 0 1 2 x(2) y(2) z(2) by (intro exI[of _ r0] exI[of _ c0] exI[of _ r1] exI[of _ c1] exI[of _ r2] exI[of _ c2]) simp
qed

lemma map_update_same: "f v = f (xs ! c) \<Longrightarrow> map f (xs[c := v]) = map f xs"
  by (cases "c < length xs") (simp_all add: map_update list_update_same_conv list_update_beyond)

lemma map_map_upd:
  assumes "cellin b r c" "f v = f (b ! r ! c)"
  shows "map (map f) (upd b r c v) = map (map f) b"
proof -
  have "map (map f) (upd b r c v) = (map (map f) b)[r := map f ((b ! r)[c := v])]"
    by (simp add: upd_def map_update)
  also have "map f ((b ! r)[c := v]) = map f (b ! r)"
    using assms(2) by (rule map_update_same)
  also have "(map (map f) b)[r := map f (b ! r)] = map (map f) b"
    using assms(1) by (simp add: cellin_def list_update_same_conv)
  finally show ?thesis .
qed

lemma board_bits_upd:
  assumes "cellin b r c" "(v > 0) = (b ! r ! c > 0)"
  shows "board_bits (upd b r c v) = board_bits b"
  using map_map_upd[OF assms(1), of "\<lambda>cell. cell > 0" v] assms(2) by (simp add: board_bits_def)

lemma holes_empty_nth: "holes_empty b \<Longrightarrow> cellin b r c \<Longrightarrow> b ! r ! c < 0 \<Longrightarrow> b ! r ! c = - 1"
proof -
  assume h: "holes_empty b" and c: "cellin b r c" and n: "b ! r ! c < 0"
  from c have "b ! r \<in> set b" "b ! r ! c \<in> set (b ! r)" by (simp_all add: cellin_def)
  with h n show ?thesis unfolding holes_empty_def EMPTY_def by blast
qed

lemma upd_same: "cellin b r c \<Longrightarrow> b ! r ! c = v \<Longrightarrow> upd b r c v = b"
  by (auto simp: upd_def cellin_def list_update_same_conv)

lemma make_undo_dir:
  assumes l: "legal_dir b i j di dj v" and nz: "di \<noteq> 0 \<or> dj \<noteq> 0"
  shows "\<exists>b1 b'. jump b i j di dj = Inr b1 \<and>
           unjump b1 (i + 2 * di) (j + 2 * dj) (- di) (- dj) v = Inr b' \<and>
           board_bits b' = board_bits b \<and> (holes_empty b \<longrightarrow> b' = b)"
proof -
  from legal_dirD[OF l] obtain r0 c0 r1 c1 r2 c2 where
    ij: "i = int r0" "j = int c0" and r1: "int r1 = int r0 + di" "int c1 = int c0 + dj"
    and r2: "int r2 = int r0 + 2 * di" "int c2 = int c0 + 2 * dj"
    and cin: "cellin b r0 c0" "cellin b r1 c1" "cellin b r2 c2"
    and vals: "b ! r0 ! c0 > 0" "b ! r1 ! c1 = v" "v > 0" "b ! r2 ! c2 < 0" by blast
  from jump_unjump[OF cin r1 r2 nz] obtain b1 where
    j: "jump b (int r0) (int c0) di dj = Inr b1"
    and u: "unjump b1 (int r2) (int c2) (- di) (- dj) (b ! r1 ! c1) = Inr (upd b r2 c2 (- 1))" by blast
  have bits: "board_bits (upd b r2 c2 (- 1)) = board_bits b"
    using cin(3) vals(4) by (intro board_bits_upd) auto
  have same: "holes_empty b \<longrightarrow> upd b r2 c2 (- 1) = b"
    using cin(3) vals(4) by (auto intro!: upd_same dest: holes_empty_nth)
  show ?thesis using j u bits same ij r2 vals(2) by auto
qed

lemma make_undo_legal:
  assumes "legal b m"
  shows "\<exists>st1 b'. make_move (b, ms) m = Inr st1 \<and> undo_move st1 = Inr (b', ms) \<and>
           board_bits b' = board_bits b \<and> (holes_empty b \<longrightarrow> b' = b)"
proof -
  obtain i j d v where m: "m = (i, j, d, v)" by (cases m)
  from assms obtain di dj where dv: "dvec d = Some (di, dj)" and l: "legal_dir b i j di dj v"
    by (auto simp: legal_def m split: option.splits)
  from dv consider "d = ''w''" "di = - 1" "dj = 0" | "d = ''a''" "di = 0" "dj = - 1"
    | "d = ''s''" "di = 1" "dj = 0" | "d = ''d''" "di = 0" "dj = 1"
    by (auto simp: dvec_def split: if_splits)
  then show ?thesis
  proof cases
    case 1
    from make_undo_dir[OF l] 1 obtain b1 b' where
      "jump b i j (- 1) 0 = Inr b1" "unjump b1 (i - 2) j 1 0 v = Inr b'"
      "board_bits b' = board_bits b" "holes_empty b \<longrightarrow> b' = b" by auto
    then show ?thesis using 1 by (simp add: m make_move_def undo_move_def bind_e_def)
  next
    case 2
    from make_undo_dir[OF l] 2 obtain b1 b' where
      "jump b i j 0 (- 1) = Inr b1" "unjump b1 i (j - 2) 0 1 v = Inr b'"
      "board_bits b' = board_bits b" "holes_empty b \<longrightarrow> b' = b" by auto
    then show ?thesis using 2 by (simp add: m make_move_def undo_move_def bind_e_def)
  next
    case 3
    from make_undo_dir[OF l] 3 obtain b1 b' where
      "jump b i j 1 0 = Inr b1" "unjump b1 (i + 2) j (- 1) 0 v = Inr b'"
      "board_bits b' = board_bits b" "holes_empty b \<longrightarrow> b' = b" by auto
    then show ?thesis using 3 by (simp add: m make_move_def undo_move_def bind_e_def)
  next
    case 4
    from make_undo_dir[OF l] 4 obtain b1 b' where
      "jump b i j 0 1 = Inr b1" "unjump b1 i (j + 2) 0 (- 1) v = Inr b'"
      "board_bits b' = board_bits b" "holes_empty b \<longrightarrow> b' = b" by auto
    then show ?thesis using 4 by (simp add: m make_move_def undo_move_def bind_e_def)
  qed
qed

lemma holes_empty_iff:
  "holes_empty b \<longleftrightarrow> (\<forall>r c. cellin b r c \<longrightarrow> b ! r ! c < 0 \<longrightarrow> b ! r ! c = - 1)"
proof
  assume h: "holes_empty b"
  show "\<forall>r c. cellin b r c \<longrightarrow> b ! r ! c < 0 \<longrightarrow> b ! r ! c = - 1"
    using holes_empty_nth[OF h] by blast
next
  assume a: "\<forall>r c. cellin b r c \<longrightarrow> b ! r ! c < 0 \<longrightarrow> b ! r ! c = - 1"
  show "holes_empty b"
    unfolding holes_empty_def
  proof (intro ballI impI)
    fix row x assume "row \<in> set b" "x \<in> set row" "x < 0"
    then obtain r c where "r < length b" "row = b ! r" "c < length row" "x = row ! c"
      by (metis in_set_conv_nth)
    with a \<open>x < 0\<close> show "x = EMPTY" by (simp add: cellin_def EMPTY_def)
  qed
qed

lemma holes_empty_upd:
  assumes "holes_empty b" "v < 0 \<longrightarrow> v = - 1"
  shows "holes_empty (upd b r c v)"
  unfolding holes_empty_iff
proof (intro allI impI)
  fix r' c' assume c: "cellin (upd b r c v) r' c'" and n: "upd b r c v ! r' ! c' < 0"
  from c have c': "cellin b r' c'" by simp
  show "upd b r c v ! r' ! c' = - 1"
  proof (cases "r = r' \<and> c = c'")
    case True
    with n c' assms(2) show ?thesis by (simp add: nth_upd)
  next
    case False
    with n c' have "b ! r' ! c' < 0" "upd b r c v ! r' ! c' = b ! r' ! c'" by (auto simp: nth_upd)
    with assms(1) c' show ?thesis by (simp add: holes_empty_iff)
  qed
qed

lemma jump_holes_empty:
  assumes l: "legal_dir b i j di dj v" and nz: "di \<noteq> 0 \<or> dj \<noteq> 0"
    and j: "jump b i j di dj = Inr b1" and h: "holes_empty b"
  shows "holes_empty b1"
proof -
  from legal_dirD[OF l] obtain r0 c0 r1 c1 r2 c2 where
    ij: "i = int r0" "j = int c0" and r1: "int r1 = int r0 + di" "int c1 = int c0 + dj"
    and r2: "int r2 = int r0 + 2 * di" "int c2 = int c0 + 2 * dj"
    and cin: "cellin b r0 c0" "cellin b r1 c1" "cellin b r2 c2"
    and vals: "b ! r0 ! c0 > 0" "b ! r1 ! c1 = v" "v > 0" "b ! r2 ! c2 < 0" by blast
  have d01: "\<not> (r1 = r0 \<and> c1 = c0)" using r1 nz by auto
  have x: "upd b r1 c1 (- 1) ! r0 ! c0 = b ! r0 ! c0" using cin d01 by (auto simp: nth_upd)
  from jump_nat[OF cin r1 r2] j ij
  have "b1 = upd (upd (upd b r1 c1 (- 1)) r2 c2 (b ! r0 ! c0)) r0 c0 (- 1)" by (simp add: x)
  then show ?thesis using h vals(1) by (auto intro!: holes_empty_upd)
qed

lemma make_move_holes_empty:
  assumes "legal b m" "make_move (b, ms) m = Inr st1" "holes_empty b"
  shows "holes_empty (fst st1)"
proof -
  obtain i j d v where m: "m = (i, j, d, v)" by (cases m)
  from assms(1) obtain di dj where dv: "dvec d = Some (di, dj)" and l: "legal_dir b i j di dj v"
    by (auto simp: legal_def m split: option.splits)
  from dv consider "d = ''w''" "di = - 1" "dj = 0" | "d = ''a''" "di = 0" "dj = - 1"
    | "d = ''s''" "di = 1" "dj = 0" | "d = ''d''" "di = 0" "dj = 1"
    by (auto simp: dvec_def split: if_splits)
  then show ?thesis
  proof cases
    case 1
    with assms(2) obtain b1 where "jump b i j di dj = Inr b1" "fst st1 = b1"
      by (auto simp: m make_move_def bind_e_Inr)
    with jump_holes_empty[OF l _ _ assms(3)] 1 show ?thesis by simp
  next
    case 2
    with assms(2) obtain b1 where "jump b i j di dj = Inr b1" "fst st1 = b1"
      by (auto simp: m make_move_def bind_e_Inr)
    with jump_holes_empty[OF l _ _ assms(3)] 2 show ?thesis by simp
  next
    case 3
    with assms(2) obtain b1 where "jump b i j di dj = Inr b1" "fst st1 = b1"
      by (auto simp: m make_move_def bind_e_Inr)
    with jump_holes_empty[OF l _ _ assms(3)] 3 show ?thesis by simp
  next
    case 4
    with assms(2) obtain b1 where "jump b i j di dj = Inr b1" "fst st1 = b1"
      by (auto simp: m make_move_def bind_e_Inr)
    with jump_holes_empty[OF l _ _ assms(3)] 4 show ?thesis by simp
  qed
qed

lemma solve_moves_fail:
  assumes rec: "\<And>st st'. holes_empty (fst st) \<Longrightarrow> rec st = Some (Inr (False, st')) \<Longrightarrow> st' = st"
    and h: "holes_empty b"
    and l: "\<forall>m \<in> set vs. legal b m"
    and res: "solve_moves rec (b, ms) vs = Some (Inr (False, st'))"
  shows "st' = (b, ms)"
  using l res
proof (induction vs)
  case Nil
  then show ?case by simp
next
  case (Cons m vs)
  from Cons.prems(1) have lm: "legal b m" by simp
  from make_undo_legal[OF lm, of ms] h obtain st1 where
    mk: "make_move (b, ms) m = Inr st1" and un: "undo_move st1 = Inr (b, ms)" by auto
  from make_move_holes_empty[OF lm mk h] have h1: "holes_empty (fst st1)" .
  from Cons.prems(2) mk obtain st2 where r2: "rec st1 = Some (Inr (False, st2))"
    by (auto split: option.splits sum.splits if_splits)
  from rec[OF h1 r2] have "st2 = st1" .
  with Cons.prems(2) mk r2 un have "solve_moves rec (b, ms) vs = Some (Inr (False, st'))" by simp
  with Cons.IH Cons.prems(1) show ?case by simp
qed

lemma solve_fail:
  "holes_empty (fst st) \<Longrightarrow> solve n st = Some (Inr (False, st')) \<Longrightarrow> st' = st"
proof (induction n arbitrary: st st')
  case 0
  then show ?case by simp
next
  case (Suc n)
  obtain b ms where st: "st = (b, ms)" by (cases st)
  from Suc.prems(2) obtain vs where vs: "get_valid_moves b = Inr vs"
    and sm: "solve_moves (solve n) (b, ms) vs = Some (Inr (False, st'))"
    by (auto simp: st split: if_splits sum.splits)
  have "st' = (b, ms)"
  proof (rule solve_moves_fail[OF _ _ _ sm])
    show "\<And>st st'. holes_empty (fst st) \<Longrightarrow> solve n st = Some (Inr (False, st')) \<Longrightarrow> st' = st"
      by (rule Suc.IH)
    show "holes_empty b" using Suc.prems(1) st by simp
    show "\<forall>m \<in> set vs. legal b m" using vs by (auto intro: get_valid_moves_sound)
  qed
  then show ?case by (simp add: st)
qed

lemma count_update:
  "c < length xs \<Longrightarrow>
   length (filter P (xs[c := v])) + (if P (xs ! c) then 1 else 0) =
   length (filter P xs) + (if P v then 1 else 0)"
proof (induction xs arbitrary: c)
  case Nil
  then show ?case by simp
next
  case (Cons x xs)
  show ?case
  proof (cases c)
    case 0
    then show ?thesis by simp
  next
    case (Suc k)
    with Cons.prems have "k < length xs" by simp
    from Cons.IH[OF this] show ?thesis by (simp add: Suc)
  qed
qed

lemma pegs_row_update:
  "r < length b \<Longrightarrow>
   pegs (b[r := row]) + length (filter (\<lambda>x. x > 0) (b ! r)) =
   pegs b + length (filter (\<lambda>x. x > 0) row)"
proof (induction b arbitrary: r)
  case Nil
  then show ?case by simp
next
  case (Cons x xs)
  show ?case
  proof (cases r)
    case 0
    then show ?thesis by (simp add: pegs_def)
  next
    case (Suc k)
    with Cons.prems have "k < length xs" by simp
    from Cons.IH[OF this] show ?thesis by (simp add: Suc pegs_def)
  qed
qed

lemma pegs_upd:
  assumes "cellin b r c"
  shows "pegs (upd b r c v) + (if b ! r ! c > 0 then 1 else 0) = pegs b + (if v > 0 then 1 else 0)"
proof -
  from assms have r: "r < length b" and c: "c < length (b ! r)" by (simp_all add: cellin_def)
  from pegs_row_update[OF r, of "(b ! r)[c := v]"] count_update[OF c, of "\<lambda>x. x > 0" v]
  show ?thesis unfolding upd_def by linarith
qed

lemma jump_pegs:
  assumes l: "legal_dir b i j di dj v" and nz: "di \<noteq> 0 \<or> dj \<noteq> 0"
    and j: "jump b i j di dj = Inr b1"
  shows "Suc (pegs b1) = pegs b"
proof -
  from legal_dirD[OF l] obtain r0 c0 r1 c1 r2 c2 where
    ij: "i = int r0" "j = int c0" and r1: "int r1 = int r0 + di" "int c1 = int c0 + dj"
    and r2: "int r2 = int r0 + 2 * di" "int c2 = int c0 + 2 * dj"
    and cin: "cellin b r0 c0" "cellin b r1 c1" "cellin b r2 c2"
    and vals: "b ! r0 ! c0 > 0" "b ! r1 ! c1 = v" "v > 0" "b ! r2 ! c2 < 0" by blast
  have d01: "\<not> (r1 = r0 \<and> c1 = c0)" using r1 nz by auto
  have d02: "\<not> (r2 = r0 \<and> c2 = c0)" using r2 nz by auto
  have d12: "\<not> (r2 = r1 \<and> c2 = c1)" using r1 r2 nz by auto
  define ba where "ba = upd b r1 c1 (- 1)"
  define bb where "bb = upd ba r2 c2 (b ! r0 ! c0)"
  have x: "ba ! r0 ! c0 = b ! r0 ! c0" using cin d01 by (auto simp: ba_def nth_upd)
  from jump_nat[OF cin r1 r2] j ij
  have b1: "b1 = upd bb r0 c0 (- 1)" by (simp add: x[unfolded ba_def] ba_def bb_def)
  have 1: "Suc (pegs ba) = pegs b"
    using pegs_upd[OF cin(2), of "- 1"] vals by (simp add: ba_def)
  have "ba ! r2 ! c2 = b ! r2 ! c2" using cin d12 by (auto simp: ba_def nth_upd)
  moreover have "cellin ba r2 c2" using cin by (simp add: ba_def)
  ultimately have 2: "pegs bb = Suc (pegs ba)"
    using pegs_upd[of ba r2 c2 "b ! r0 ! c0"] vals by (simp add: bb_def)
  have "bb ! r0 ! c0 = b ! r0 ! c0" using cin d01 d02 by (auto simp: bb_def ba_def nth_upd)
  moreover have "cellin bb r0 c0" using cin by (simp add: bb_def ba_def)
  ultimately have 3: "Suc (pegs b1) = pegs bb"
    using pegs_upd[of bb r0 c0 "- 1"] vals by (simp add: b1)
  from 1 2 3 show ?thesis by simp
qed

lemma make_move_pegs:
  assumes "legal b m" "make_move (b, ms) m = Inr st1"
  shows "Suc (pegs (fst st1)) = pegs b"
proof -
  obtain i j d v where m: "m = (i, j, d, v)" by (cases m)
  from assms(1) obtain di dj where dv: "dvec d = Some (di, dj)" and l: "legal_dir b i j di dj v"
    by (auto simp: legal_def m split: option.splits)
  from dv have nz: "di \<noteq> 0 \<or> dj \<noteq> 0" by (auto simp: dvec_def split: if_splits)
  from dv assms(2) obtain b1 where "jump b i j di dj = Inr b1" "fst st1 = b1"
    unfolding m make_move_def dvec_def by (auto simp: bind_e_Inr split: if_splits)
  with jump_pegs[OF l nz] show ?thesis by simp
qed

lemma solve_moves_total:
  assumes rec_total: "\<And>st. holes_empty (fst st) \<Longrightarrow> pegs (fst st) < k \<Longrightarrow> rec st \<noteq> None"
    and rec_fail: "\<And>st st'. holes_empty (fst st) \<Longrightarrow> rec st = Some (Inr (False, st')) \<Longrightarrow> st' = st"
    and h: "holes_empty b"
    and k: "pegs b \<le> k"
    and l: "\<forall>m \<in> set vs. legal b m"
  shows "solve_moves rec (b, ms) vs \<noteq> None"
  using l
proof (induction vs)
  case Nil
  then show ?case by simp
next
  case (Cons m vs)
  from Cons.prems have lm: "legal b m" by simp
  from make_undo_legal[OF lm, of ms] h obtain st1 where
    mk: "make_move (b, ms) m = Inr st1" and un: "undo_move st1 = Inr (b, ms)" by auto
  from make_move_holes_empty[OF lm mk h] have h1: "holes_empty (fst st1)" .
  from make_move_pegs[OF lm mk] k have "pegs (fst st1) < k" by simp
  from rec_total[OF h1 this] obtain res where res: "rec st1 = Some res" by auto
  show ?case
  proof (cases res)
    case (Inl e)
    with mk res show ?thesis by simp
  next
    case (Inr p)
    obtain r st2 where p: "p = (r, st2)" by (cases p)
    show ?thesis
    proof (cases r)
      case True
      with mk res Inr p show ?thesis by simp
    next
      case False
      with res Inr p rec_fail[OF h1] have "st2 = st1" by simp
      with mk res Inr p False un have "solve_moves rec (b, ms) (m # vs) = solve_moves rec (b, ms) vs"
        by simp
      with Cons.IH Cons.prems show ?thesis by simp
    qed
  qed
qed

lemma solve_total:
  "holes_empty (fst st) \<Longrightarrow> pegs (fst st) < n \<Longrightarrow> solve n st \<noteq> None"
proof (induction n arbitrary: st)
  case 0
  then show ?case by simp
next
  case (Suc n)
  obtain b ms where st: "st = (b, ms)" by (cases st)
  show ?case
  proof (cases "truthy (is_solved b)")
    case True
    then show ?thesis by (simp add: st)
  next
    case False
    show ?thesis
    proof (cases "get_valid_moves b")
      case (Inl e)
      with False show ?thesis by (simp add: st)
    next
      case (Inr vs)
      have "solve_moves (solve n) (b, ms) vs \<noteq> None"
      proof (rule solve_moves_total[where k = n])
        show "\<And>st. holes_empty (fst st) \<Longrightarrow> pegs (fst st) < n \<Longrightarrow> solve n st \<noteq> None"
          by (rule Suc.IH)
        show "\<And>st st'. holes_empty (fst st) \<Longrightarrow> solve n st = Some (Inr (False, st')) \<Longrightarrow> st' = st"
          by (rule solve_fail)
        show "holes_empty b" using Suc.prems(1) st by simp
        show "pegs b \<le> n" using Suc.prems(2) st by simp
        show "\<forall>m \<in> set vs. legal b m" using Inr by (auto intro: get_valid_moves_sound)
      qed
      with False Inr show ?thesis by (simp add: st)
    qed
  qed
qed


lemma dfs_moves_fail:
  assumes rec: "\<And>V st V' st'. holes_empty (fst st) \<Longrightarrow> rec V st = Some (Inr (False, V', st')) \<Longrightarrow> st' = st"
    and h: "holes_empty b"
    and l: "\<forall>m \<in> set vs. legal b m"
    and res: "dfs_moves rec V (b, ms) vs = Some (Inr (False, V', st'))"
  shows "st' = (b, ms)"
  using l res
proof (induction vs arbitrary: V)
  case Nil
  then show ?case by simp
next
  case (Cons m vs)
  from Cons.prems(1) have lm: "legal b m" by simp
  from make_undo_legal[OF lm, of ms] h obtain st1 where
    mk: "make_move (b, ms) m = Inr st1" and un: "undo_move st1 = Inr (b, ms)" by auto
  from make_move_holes_empty[OF lm mk h] have h1: "holes_empty (fst st1)" .
  from Cons.prems(2) mk obtain V1 st2 where r2: "rec V st1 = Some (Inr (False, V1, st2))"
    by (auto split: option.splits sum.splits if_splits)
  from rec[OF h1 r2] have "st2 = st1" .
  with Cons.prems(2) mk r2 un have "dfs_moves rec V1 (b, ms) vs = Some (Inr (False, V', st'))" by simp
  with Cons.IH Cons.prems(1) show ?case by simp
qed

lemma dfs_fail:
  "holes_empty (fst st) \<Longrightarrow> dfs n V st = Some (Inr (False, V', st')) \<Longrightarrow> st' = st"
proof (induction n arbitrary: V st V' st')
  case 0
  then show ?case by simp
next
  case (Suc n)
  obtain b ms where st: "st = (b, ms)" by (cases st)
  from Suc.prems(2) obtain k where k: "encode_board b = Inr k"
    by (auto simp: st split: sum.splits)
  show ?case
  proof (cases "k \<in> V")
    case True
    with Suc.prems(2) k show ?thesis by (simp add: st)
  next
    case False
    with Suc.prems(2) k obtain vs where vs: "get_valid_moves b = Inr vs"
      and sm: "dfs_moves (dfs n) (insert k V) (b, ms) vs = Some (Inr (False, V', st'))"
      by (auto simp: st split: if_splits sum.splits)
    have "st' = (b, ms)"
    proof (rule dfs_moves_fail[OF _ _ _ sm])
      show "\<And>V st V' st'. holes_empty (fst st) \<Longrightarrow> dfs n V st = Some (Inr (False, V', st')) \<Longrightarrow> st' = st"
        by (rule Suc.IH)
      show "holes_empty b" using Suc.prems(1) st by simp
      show "\<forall>m \<in> set vs. legal b m" using vs by (auto intro: get_valid_moves_sound)
    qed
    then show ?thesis by (simp add: st)
  qed
qed

lemma free_digit_True: "free_digit s r c d = Inr True \<longleftrightarrow> free_at s r c d"
  by (auto simp: free_digit_def free_at_def)

lemma valid_loop_mem:
  "valid_loop s r c ds = Inr mv \<Longrightarrow> d \<in> set mv \<Longrightarrow> free_at s r c d \<and> d \<in> set ds"
proof (induction ds arbitrary: mv)
  case Nil
  then show ?case by simp
next
  case (Cons x ds)
  from Cons.prems(1) obtain ok rest where ok: "free_digit s r c x = Inr ok"
    and rest: "valid_loop s r c ds = Inr rest" and mv: "mv = (if ok then x # rest else rest)"
    by (auto simp: bind_e_Inr)
  show ?case
  proof (cases "d \<in> set rest")
    case True
    from Cons.IH[OF rest True] show ?thesis by simp
  next
    case False
    with Cons.prems(2) mv have "ok" "d = x" by (auto split: if_splits)
    with ok show ?thesis by (simp add: free_digit_True)
  qed
qed

lemma validMove_mem:
  assumes "validMove s (r, c) = Inr mv" "d \<in> set mv"
  shows "free_at s r c d"
proof -
  from assms(1) have "valid_loop s r c ''123456789'' = Inr mv"
    unfolding validMove_def by (simp only: case_prod_conv)
  from valid_loop_mem[OF this assms(2)] show ?thesis by blast
qed

lemma add_remove:
  "k < length ss \<Longrightarrow> d \<notin> ss ! k \<Longrightarrow>
   \<exists>ss1. set_add ss k d = Inr ss1 \<and> set_remove ss1 k d = Inr ss"
  by (simp add: set_add_def set_remove_def list_update_same_conv)

lemma grid_set_reset:
  "grid_get g r c = Inr x \<Longrightarrow> \<exists>g1. grid_set g r c d = Inr g1 \<and> grid_set g1 r c x = Inr g"
  by (auto simp: grid_get_def grid_set_def list_update_same_conv split: if_splits)

lemma place_unplace:
  assumes f: "free_at s r c d" and e: "grid_get (board s) r c = Inr (CHR ''.'')"
  shows "\<exists>s1. place s r c d = Inr s1 \<and> unplace s1 r c d = Inr s"
proof -
  from grid_set_reset[OF e] obtain g1 where g: "grid_set (board s) r c d = Inr g1"
    "grid_set g1 r c (CHR ''.'') = Inr (board s)" by blast
  from f obtain rs cs bs where
    rs: "set_add (rows s) r d = Inr rs" "set_remove rs r d = Inr (rows s)" and
    cs: "set_add (cols s) c d = Inr cs" "set_remove cs c d = Inr (cols s)" and
    bs: "set_add (boxes s) (box_of r c) d = Inr bs" "set_remove bs (box_of r c) d = Inr (boxes s)"
    unfolding free_at_def using add_remove by meson
  show ?thesis
    by (simp add: place_def unplace_def bind_e_def g rs cs bs)
qed

lemma place_moves_fail:
  assumes rec: "\<And>s s'. rec s = Some (Inr (False, s')) \<Longrightarrow> s' = s"
    and e: "grid_get (board s) r c = Inr (CHR ''.'')"
    and f: "\<forall>d \<in> set ds. free_at s r c d"
    and res: "place_moves rec s r c ds = Some (Inr (False, s'))"
  shows "s' = s"
  using f res
proof (induction ds)
  case Nil
  then show ?case by simp
next
  case (Cons d ds)
  from Cons.prems(1) have fd: "free_at s r c d" by simp
  from place_unplace[OF fd e] obtain s1 where p: "place s r c d = Inr s1" and u: "unplace s1 r c d = Inr s"
    by blast
  from Cons.prems(2) p obtain s2 where r2: "rec s1 = Some (Inr (False, s2))"
    by (auto split: option.splits sum.splits if_splits)
  from rec[OF r2] have "s2 = s1" .
  with Cons.prems(2) p r2 u have "place_moves rec s r c ds = Some (Inr (False, s'))" by simp
  with Cons.IH Cons.prems(1) show ?case by simp
qed

lemma dfs_rec_fail: "dfs_rec n idx s = Some (Inr (False, s')) \<Longrightarrow> s' = s"
proof (induction n arbitrary: idx s s')
  case 0
  then show ?case by simp
next
  case (Suc n)
  from Suc.prems have lt: "idx < length (empties s)" by (auto split: if_splits)
  obtain r c where rc: "empties s ! idx = (r, c)" by (cases "empties s ! idx")
  from Suc.prems lt rc obtain ch where ch: "grid_get (board s) r c = Inr ch"
    by (auto split: sum.splits)
  show ?case
  proof (cases "ch = CHR ''.''")
    case False
    with Suc.prems lt rc ch have "dfs_rec n (Suc idx) s = Some (Inr (False, s'))" by simp
    then show ?thesis by (rule Suc.IH)
  next
    case True
    with Suc.prems lt rc ch obtain mv where mv: "validMove s (r, c) = Inr mv"
      and pm: "place_moves (dfs_rec n (Suc idx)) s r c mv = Some (Inr (False, s'))"
      by (auto split: sum.splits)
    show ?thesis
    proof (rule place_moves_fail[OF _ _ _ pm])
      show "\<And>s s'. dfs_rec n (Suc idx) s = Some (Inr (False, s')) \<Longrightarrow> s' = s" by (rule Suc.IH)
      show "grid_get (board s) r c = Inr (CHR ''.'')" using ch True by simp
      show "\<forall>d \<in> set mv. free_at s r c d" using mv by (auto dest: validMove_mem)
    qed
  qed
qed

lemma place_moves_total:
  assumes rec_total: "\<And>s. rec s \<noteq> None"
    and rec_fail: "\<And>s s'. rec s = Some (Inr (False, s')) \<Longrightarrow> s' = s"
    and e: "grid_get (board s) r c = Inr (CHR ''.'')"
    and f: "\<forall>d \<in> set ds. free_at s r c d"
  shows "place_moves rec s r c ds \<noteq> None"
  using f
proof (induction ds)
  case Nil
  then show ?case by simp
next
  case (Cons d ds)
  from Cons.prems have fd: "free_at s r c d" by simp
  from place_unplace[OF fd e] obtain s1 where p: "place s r c d = Inr s1" and u: "unplace s1 r c d = Inr s"
    by blast
  from rec_total[of s1] obtain res where res: "rec s1 = Some res" by auto
  show ?case
  proof (cases res)
    case (Inl e)
    with p res show ?thesis by simp
  next
    case (Inr q)
    obtain ok s2 where q: "q = (ok, s2)" by (cases q)
    show ?thesis
    proof (cases ok)
      case True
      with p res Inr q show ?thesis by simp
    next
      case False
      with res Inr q rec_fail have "s2 = s1" by simp
      with p res Inr q False u have "place_moves rec s r c (d # ds) = place_moves rec s r c ds" by simp
      with Cons.IH Cons.prems show ?thesis by simp
    qed
  qed
qed

lemma place_empties: "place s r c d = Inr s1 \<Longrightarrow> empties s1 = empties s"
  by (auto simp: place_def bind_e_Inr)

lemma unplace_empties: "unplace s r c d = Inr s1 \<Longrightarrow> empties s1 = empties s"
  by (auto simp: unplace_def bind_e_Inr)

lemma place_moves_empties:
  assumes rec: "\<And>s r' s'. rec s = Some (Inr (r', s')) \<Longrightarrow> empties s' = empties s"
  shows "place_moves rec s r c ds = Some (Inr (ok, s')) \<Longrightarrow> empties s' = empties s"
proof (induction ds arbitrary: s)
  case Nil
  then show ?case by simp
next
  case (Cons d ds)
  from Cons.prems obtain s1 where p: "place s r c d = Inr s1" by (auto split: sum.splits)
  from Cons.prems p obtain ok2 s2 where r2: "rec s1 = Some (Inr (ok2, s2))"
    by (auto split: option.splits sum.splits)
  have e2: "empties s2 = empties s" using rec[OF r2] place_empties[OF p] by simp
  show ?case
  proof (cases ok2)
    case True
    with Cons.prems p r2 e2 show ?thesis by simp
  next
    case False
    with Cons.prems p r2 obtain s3 where u: "unplace s2 r c d = Inr s3"
      and rest: "place_moves rec s3 r c ds = Some (Inr (ok, s'))"
      by (auto split: sum.splits)
    from Cons.IH[OF rest] unplace_empties[OF u] e2 show ?thesis by simp
  qed
qed

lemma dfs_rec_empties: "dfs_rec n idx s = Some (Inr (ok, s')) \<Longrightarrow> empties s' = empties s"
proof (induction n arbitrary: idx s ok s')
  case 0
  then show ?case by simp
next
  case (Suc n)
  show ?case
  proof (cases "idx = length (empties s)")
    case True
    with Suc.prems show ?thesis by simp
  next
    case False
    with Suc.prems have lt: "idx < length (empties s)" by (auto split: if_splits)
    obtain r c where rc: "empties s ! idx = (r, c)" by (cases "empties s ! idx")
    from Suc.prems lt rc obtain ch where ch: "grid_get (board s) r c = Inr ch"
      by (auto split: sum.splits)
    show ?thesis
    proof (cases "ch = CHR ''.''")
      case False
      with Suc.prems lt rc ch have "dfs_rec n (Suc idx) s = Some (Inr (ok, s'))" by simp
      then show ?thesis by (rule Suc.IH)
    next
      case True
      with Suc.prems lt rc ch obtain mv where mv: "validMove s (r, c) = Inr mv"
        and pm: "place_moves (dfs_rec n (Suc idx)) s r c mv = Some (Inr (ok, s'))"
        by (auto split: sum.splits)
      show ?thesis by (rule place_moves_empties[OF _ pm]) (rule Suc.IH)
    qed
  qed
qed

lemma dfs_rec_total: "length (empties s) - idx < n \<Longrightarrow> dfs_rec n idx s \<noteq> None"
proof (induction n arbitrary: idx s)
  case 0
  then show ?case by simp
next
  case (Suc n)
  show ?case
  proof (cases "idx < length (empties s)")
    case False
    then show ?thesis by simp
  next
    case lt: True
    obtain r c where rc: "empties s ! idx = (r, c)" by (cases "empties s ! idx")
    have rec_total: "dfs_rec n (Suc idx) s1 \<noteq> None" if "empties s1 = empties s" for s1
      using Suc.IH[of s1 "Suc idx"] Suc.prems lt that by simp
    show ?thesis
    proof (cases "grid_get (board s) r c")
      case (Inl e)
      with lt rc show ?thesis by simp
    next
      case (Inr ch)
      show ?thesis
      proof (cases "ch = CHR ''.''")
        case False
        with lt rc Inr rec_total[of s] show ?thesis by simp
      next
        case True
        show ?thesis
        proof (cases "validMove s (r, c)")
          case (Inl e)
          with lt rc Inr True show ?thesis by simp
        next
          case mv: (Inr mv)
          define rec where "rec s1 = (if empties s1 = empties s then dfs_rec n (Suc idx) s1 else Some (Inl IndexError))" for s1
          have "place_moves rec s r c mv \<noteq> None"
          proof (rule place_moves_total)
            show "\<And>s. rec s \<noteq> None" using rec_total by (simp add: rec_def)
            show "\<And>s s'. rec s = Some (Inr (False, s')) \<Longrightarrow> s' = s"
              by (auto simp: rec_def dest: dfs_rec_fail split: if_splits)
            show "grid_get (board s) r c = Inr (CHR ''.'')" using Inr True by simp
            show "\<forall>d \<in> set mv. free_at s r c d" using mv by (auto dest: validMove_mem)
          qed
          moreover have "place_moves rec s1 r c ds = place_moves (dfs_rec n (Suc idx)) s1 r c ds"
            if "empties s1 = empties s" for s1 ds
            using that
          proof (induction ds arbitrary: s1)
            case Nil
            then show ?case by simp
          next
            case (Cons d ds)
            show ?case
            proof (cases "place s1 r c d")
              case (Inl e)
              then show ?thesis by simp
            next
              case p: (Inr s2)
              have e2: "empties s2 = empties s" using place_empties[OF p] Cons.prems by simp
              then have req: "rec s2 = dfs_rec n (Suc idx) s2" by (simp add: rec_def)
              show ?thesis
              proof (cases "dfs_rec n (Suc idx) s2")
                case None
                with p req show ?thesis by simp
              next
                case (Some res)
                show ?thesis
                proof (cases res)
                  case (Inl e)
                  with p req Some show ?thesis by simp
                next
                  case (Inr q)
                  obtain ok s3 where q: "q = (ok, s3)" by (cases q)
                  have e3: "empties s3 = empties s"
                    using dfs_rec_empties[of n "Suc idx" s2 ok s3] Some Inr q e2 by simp
                  show ?thesis
                  proof (cases "unplace s3 r c d")
                    case (Inl e)
                    with p req Some Inr q show ?thesis by simp
                  next
                    case u: (Inr s4)
                    have "empties s4 = empties s" using unplace_empties[OF u] e3 by simp
                    from Cons.IH[OF this] p req Some Inr q u show ?thesis by simp
                  qed
                qed
              qed
            qed
          qed
          ultimately have "place_moves (dfs_rec n (Suc idx)) s r c mv \<noteq> None" by simp
          with lt rc Inr True mv show ?thesis by simp
        qed
      qed
    qed
  qed
qed

lemma encode_board_bits: "board_bits b' = board_bits b \<Longrightarrow> encode_board b' = encode_board b"
  by (simp add: encode_board_def)


lemma square_cellin: "square b \<Longrightarrow> cellin b r c \<longleftrightarrow> r < 7 \<and> c < 7"
  by (auto simp: square_def cellin_def N_def)

lemma square_cell_at:
  "square b \<Longrightarrow> 0 \<le> i \<Longrightarrow> i < 7 \<Longrightarrow> 0 \<le> j \<Longrightarrow> j < 7 \<Longrightarrow> cell_at b i j = Some (b ! nat i ! nat j)"
  by (auto simp: square_def cell_at_def N_def)

lemma square_getitem:
  "square b \<Longrightarrow> 0 \<le> i \<Longrightarrow> i < 7 \<Longrightarrow> 0 \<le> j \<Longrightarrow> j < 7 \<Longrightarrow> getitem b i j = Inr (b ! nat i ! nat j)"
  by (simp add: getitem_cell_at square_cell_at)

lemma can_w_total: "square b \<Longrightarrow> i < 7 \<Longrightarrow> c < 7 \<Longrightarrow> \<exists>w. can_w b i c = Inr w"
  by (auto simp: can_w_def square_getitem bind_e_def)

lemma can_a_total: "square b \<Longrightarrow> i < 7 \<Longrightarrow> c < 7 \<Longrightarrow> \<exists>w. can_a b i c = Inr w"
  by (auto simp: can_a_def square_getitem bind_e_def)

lemma can_s_total: "square b \<Longrightarrow> i < 7 \<Longrightarrow> c < 7 \<Longrightarrow> \<exists>w. can_s b i c = Inr w"
  by (auto simp: can_s_def square_getitem bind_e_def N_def)

lemma can_d_total: "square b \<Longrightarrow> i < 7 \<Longrightarrow> c < 7 \<Longrightarrow> \<exists>w. can_d b i c = Inr w"
  by (auto simp: can_d_def square_getitem bind_e_def N_def)

lemma mk_w_total: "can_w b i c = Inr True \<Longrightarrow> \<exists>m. mk_w b i c = Inr m"
  by (auto simp: can_w_iff mk_w_iff is_peg_def split: option.splits)

lemma mk_a_total: "can_a b i c = Inr True \<Longrightarrow> \<exists>m. mk_a b i c = Inr m"
  by (auto simp: can_a_iff mk_a_iff is_peg_def split: option.splits)

lemma mk_s_total: "can_s b i c = Inr True \<Longrightarrow> \<exists>m. mk_s b i c = Inr m"
  by (auto simp: can_s_iff mk_s_iff is_peg_def split: option.splits)

lemma mk_d_total: "can_d b i c = Inr True \<Longrightarrow> \<exists>m. mk_d b i c = Inr m"
  by (auto simp: can_d_iff mk_d_iff is_peg_def split: option.splits)

lemma try_total:
  assumes "\<exists>w. t = Inr w" "t = Inr True \<Longrightarrow> \<exists>m. mk = Inr m"
  shows "\<exists>w l. t = Inr w \<and> (if w then bind_e mk (\<lambda>m. Inr [m]) else Inr []) = Inr l \<and>
           (\<forall>m. m \<in> set l \<longleftrightarrow> w \<and> mk = Inr m)"
proof -
  from assms(1) obtain w where w: "t = Inr w" by blast
  show ?thesis
  proof (cases w)
    case True
    with w assms(2) obtain m where "mk = Inr m" by blast
    with w True show ?thesis by (auto simp: bind_e_def)
  next
    case False
    with w show ?thesis by auto
  qed
qed

lemma cell_moves_eu_total:
  assumes sq: "square b" and i: "i < 7" and c: "c < 7"
  shows "\<exists>l. cell_moves_eu b i c = Inr l \<and>
           (\<forall>m. m \<in> set l \<longleftrightarrow> b ! i ! c > 0 \<and>
              (can_w b i c = Inr True \<and> mk_w b i c = Inr m \<or>
               can_a b i c = Inr True \<and> mk_a b i c = Inr m \<or>
               can_s b i c = Inr True \<and> mk_s b i c = Inr m \<or>
               can_d b i c = Inr True \<and> mk_d b i c = Inr m))"
proof (cases "b ! i ! c > 0")
  case False
  then show ?thesis by (simp add: cell_moves_eu_def)
next
  case True
  from try_total[OF can_w_total[OF sq i c] mk_w_total] obtain w lw where
    w: "can_w b i c = Inr w" "(if w then bind_e (mk_w b i c) (\<lambda>m. Inr [m]) else Inr []) = Inr lw"
       "\<forall>m. m \<in> set lw \<longleftrightarrow> w \<and> mk_w b i c = Inr m" by blast
  from try_total[OF can_a_total[OF sq i c] mk_a_total] obtain a la where
    a: "can_a b i c = Inr a" "(if a then bind_e (mk_a b i c) (\<lambda>m. Inr [m]) else Inr []) = Inr la"
       "\<forall>m. m \<in> set la \<longleftrightarrow> a \<and> mk_a b i c = Inr m" by blast
  from try_total[OF can_s_total[OF sq i c] mk_s_total] obtain s ls where
    s: "can_s b i c = Inr s" "(if s then bind_e (mk_s b i c) (\<lambda>m. Inr [m]) else Inr []) = Inr ls"
       "\<forall>m. m \<in> set ls \<longleftrightarrow> s \<and> mk_s b i c = Inr m" by blast
  from try_total[OF can_d_total[OF sq i c] mk_d_total] obtain d ld where
    d: "can_d b i c = Inr d" "(if d then bind_e (mk_d b i c) (\<lambda>m. Inr [m]) else Inr []) = Inr ld"
       "\<forall>m. m \<in> set ld \<longleftrightarrow> d \<and> mk_d b i c = Inr m" by blast
  have "cell_moves_eu b i c = Inr (lw @ la @ ls @ ld)"
    using True w(1,2) a(1,2) s(1,2) d(1,2)
    by (simp add: cell_moves_eu_def bind_e_def split del: if_split)
  moreover have "m \<in> set (lw @ la @ ls @ ld) \<longleftrightarrow>
              (can_w b i c = Inr True \<and> mk_w b i c = Inr m \<or>
               can_a b i c = Inr True \<and> mk_a b i c = Inr m \<or>
               can_s b i c = Inr True \<and> mk_s b i c = Inr m \<or>
               can_d b i c = Inr True \<and> mk_d b i c = Inr m)" for m
  proof -
    have "can_w b i c = Inr True \<longleftrightarrow> w" "can_a b i c = Inr True \<longleftrightarrow> a"
      "can_s b i c = Inr True \<longleftrightarrow> s" "can_d b i c = Inr True \<longleftrightarrow> d"
      using w(1) a(1) s(1) d(1) by simp_all
    then show ?thesis
      by (simp add: w(3)[rule_format] a(3)[rule_format] s(3)[rule_format] d(3)[rule_format])
  qed
  ultimately show ?thesis using True by simp
qed

lemma cell_moves_total:
  assumes sq: "square b" and i: "i < 7" and c: "c < 7"
  shows "\<exists>l. cell_moves b i c = Inr l"
proof (cases "b ! i ! c > 0")
  case False
  then show ?thesis by (simp add: cell_moves_def)
next
  case True
  from can_w_total[OF sq i c] obtain w where w: "can_w b i c = Inr w" by blast
  from can_a_total[OF sq i c] obtain a where a: "can_a b i c = Inr a" by blast
  from can_s_total[OF sq i c] obtain s where s: "can_s b i c = Inr s" by blast
  from can_d_total[OF sq i c] obtain d where d: "can_d b i c = Inr d" by blast
  show ?thesis
  proof (cases w)
    case True
    with w mk_w_total[of b i c] \<open>b ! i ! c > 0\<close> show ?thesis
      by (auto simp: cell_moves_def bind_e_def)
  next
    case nw: False
    show ?thesis
    proof (cases a)
      case True
      with w nw a mk_a_total[of b i c] \<open>b ! i ! c > 0\<close> show ?thesis
        by (auto simp: cell_moves_def bind_e_def)
    next
      case na: False
      show ?thesis
      proof (cases s)
        case True
        with w nw a na s mk_s_total[of b i c] \<open>b ! i ! c > 0\<close> show ?thesis
          by (auto simp: cell_moves_def bind_e_def)
      next
        case ns: False
        show ?thesis
        proof (cases d)
          case True
          with w nw a na s ns d mk_d_total[of b i c] \<open>b ! i ! c > 0\<close> show ?thesis
            by (auto simp: cell_moves_def bind_e_def)
        next
          case False
          with w nw a na s ns d \<open>b ! i ! c > 0\<close> show ?thesis
            by (auto simp: cell_moves_def bind_e_def)
        qed
      qed
    qed
  qed
qed

lemma scan_total:
  "(\<And>i c. (i, c) \<in> set cs \<Longrightarrow> \<exists>l. f i c = Inr l) \<Longrightarrow> \<exists>ms. scan f cs = Inr ms"
proof (induction cs)
  case Nil
  then show ?case by simp
next
  case (Cons p cs)
  obtain i c where p: "p = (i, c)" by (cases p)
  from Cons.prems[of i c] p obtain l where l: "f i c = Inr l" by auto
  from Cons.IH Cons.prems obtain ms where "scan f cs = Inr ms" by auto
  with l p show ?case by (simp add: bind_e_def)
qed

lemma scan_mem_conv:
  "scan f cs = Inr ms \<Longrightarrow> (i, c) \<in> set cs \<Longrightarrow> f i c = Inr l \<Longrightarrow> set l \<subseteq> set ms"
proof (induction cs arbitrary: ms)
  case Nil
  then show ?case by simp
next
  case (Cons p cs)
  obtain i' c' where p: "p = (i', c')" by (cases p)
  from Cons.prems(1) obtain l' ms' where l': "f i' c' = Inr l'" and r: "scan f cs = Inr ms'"
    and ms: "ms = l' @ ms'"
    by (auto simp: p bind_e_Inr)
  show ?case
  proof (cases "(i, c) = (i', c')")
    case True
    with l' Cons.prems(3) ms show ?thesis by auto
  next
    case False
    with Cons.prems(2) p have "(i, c) \<in> set cs" by auto
    from Cons.IH[OF r this Cons.prems(3)] ms show ?thesis by auto
  qed
qed

lemma get_valid_moves_total: "square b \<Longrightarrow> \<exists>vs. get_valid_moves b = Inr vs"
  unfolding get_valid_moves_def
  by (rule scan_total) (auto simp: set_cells square_cellin intro: cell_moves_total)

lemma get_valid_moves_eu_total:
  assumes "square b"
  shows "\<exists>vs. get_valid_moves_eu b = Inr vs"
  unfolding get_valid_moves_eu_def
proof (rule scan_total)
  fix i c assume "(i, c) \<in> set (cells b)"
  with assms have "i < 7" "c < 7" by (simp_all add: set_cells square_cellin)
  from cell_moves_eu_total[OF assms this] show "\<exists>l. cell_moves_eu b i c = Inr l" by blast
qed

lemma cell_at_Some_range: "cell_at b i j = Some v \<Longrightarrow> 0 \<le> i \<and> i < int (length b) \<and> 0 \<le> j"
  by (auto simp: cell_at_def split: if_splits)

lemma cell_at_Some_col: "square b \<Longrightarrow> cell_at b i j = Some v \<Longrightarrow> j < 7"
  by (auto simp: cell_at_def square_def N_def split: if_splits)

lemma is_hole_range: "is_hole (cell_at b i j) \<Longrightarrow> 0 \<le> i \<and> i < int (length b) \<and> 0 \<le> j"
  by (auto simp: is_hole_def dest: cell_at_Some_range split: option.splits)

lemma is_hole_col: "square b \<Longrightarrow> is_hole (cell_at b i j) \<Longrightarrow> j < 7"
  by (auto simp: is_hole_def dest: cell_at_Some_col split: option.splits)

lemma legal_enumerated:
  assumes sq: "square b" and l: "legal b m"
  shows "\<exists>r0 c0. cellin b r0 c0 \<and> b ! r0 ! c0 > 0 \<and>
           (can_w b r0 c0 = Inr True \<and> mk_w b r0 c0 = Inr m \<or>
            can_a b r0 c0 = Inr True \<and> mk_a b r0 c0 = Inr m \<or>
            can_s b r0 c0 = Inr True \<and> mk_s b r0 c0 = Inr m \<or>
            can_d b r0 c0 = Inr True \<and> mk_d b r0 c0 = Inr m)"
proof -
  obtain i j d v where m: "m = (i, j, d, v)" by (cases m)
  from l obtain di dj where dv: "dvec d = Some (di, dj)" and ld: "legal_dir b i j di dj v"
    by (auto simp: legal_def m split: option.splits)
  from ld have p: "is_peg (cell_at b i j)" and y: "cell_at b (i + di) (j + dj) = Some v" "v > 0"
    and h: "is_hole (cell_at b (i + 2 * di) (j + 2 * dj))" by (simp_all add: legal_dir_def)
  from p obtain x where x: "cell_at b i j = Some x" "x > 0" by (auto simp: is_peg_def split: option.splits)
  from cell_at_SomeD[OF x(1)] obtain r0 c0 where rc: "i = int r0" "j = int c0" "cellin b r0 c0" "b ! r0 ! c0 = x"
    by blast
  have len: "length b = 7" using sq by (simp add: square_def N_def)
  from dv consider "d = ''w''" "di = - 1" "dj = 0" | "d = ''a''" "di = 0" "dj = - 1"
    | "d = ''s''" "di = 1" "dj = 0" | "d = ''d''" "di = 0" "dj = 1"
    by (auto simp: dvec_def split: if_splits)
  then have "can_w b r0 c0 = Inr True \<and> mk_w b r0 c0 = Inr m \<or>
            can_a b r0 c0 = Inr True \<and> mk_a b r0 c0 = Inr m \<or>
            can_s b r0 c0 = Inr True \<and> mk_s b r0 c0 = Inr m \<or>
            can_d b r0 c0 = Inr True \<and> mk_d b r0 c0 = Inr m"
  proof cases
    case 1
    from is_hole_range[OF h] 1 rc have "1 < r0" by simp
    with 1 y h rc have "can_w b r0 c0 = Inr True \<and> mk_w b r0 c0 = Inr m"
      by (simp add: can_w_iff mk_w_iff m is_peg_def)
    then show ?thesis by simp
  next
    case 2
    from is_hole_range[OF h] 2 rc have "1 < c0" by simp
    with 2 y h rc have "can_a b r0 c0 = Inr True \<and> mk_a b r0 c0 = Inr m"
      by (simp add: can_a_iff mk_a_iff m is_peg_def)
    then show ?thesis by simp
  next
    case 3
    from is_hole_range[OF h] 3 rc len have "r0 < 5" by simp
    with 3 y h rc have "can_s b r0 c0 = Inr True \<and> mk_s b r0 c0 = Inr m"
      by (simp add: can_s_iff mk_s_iff m is_peg_def N_def)
    then show ?thesis by simp
  next
    case 4
    from is_hole_col[OF sq h] 4 rc have "c0 < 5" by simp
    with 4 y h rc have "can_d b r0 c0 = Inr True \<and> mk_d b r0 c0 = Inr m"
      by (simp add: can_d_iff mk_d_iff m is_peg_def N_def)
    then show ?thesis by simp
  qed
  with rc x show ?thesis by blast
qed

lemma get_valid_moves_eu_complete:
  assumes sq: "square b" and l: "legal b m"
  shows "\<exists>vs. get_valid_moves_eu b = Inr vs \<and> m \<in> set vs"
proof -
  from get_valid_moves_eu_total[OF sq] obtain vs where vs: "get_valid_moves_eu b = Inr vs" by blast
  from legal_enumerated[OF sq l] obtain r0 c0 where rc: "cellin b r0 c0" "b ! r0 ! c0 > 0"
    and en: "can_w b r0 c0 = Inr True \<and> mk_w b r0 c0 = Inr m \<or>
            can_a b r0 c0 = Inr True \<and> mk_a b r0 c0 = Inr m \<or>
            can_s b r0 c0 = Inr True \<and> mk_s b r0 c0 = Inr m \<or>
            can_d b r0 c0 = Inr True \<and> mk_d b r0 c0 = Inr m" by blast
  from rc(1) sq have lt: "r0 < 7" "c0 < 7" by (simp_all add: square_cellin)
  from cell_moves_eu_total[OF sq lt] obtain ll where ll: "cell_moves_eu b r0 c0 = Inr ll"
    and mem: "\<forall>m. m \<in> set ll \<longleftrightarrow> b ! r0 ! c0 > 0 \<and>
              (can_w b r0 c0 = Inr True \<and> mk_w b r0 c0 = Inr m \<or>
               can_a b r0 c0 = Inr True \<and> mk_a b r0 c0 = Inr m \<or>
               can_s b r0 c0 = Inr True \<and> mk_s b r0 c0 = Inr m \<or>
               can_d b r0 c0 = Inr True \<and> mk_d b r0 c0 = Inr m)" by blast
  from mem[rule_format, of m] rc(2) en have "m \<in> set ll" by blast
  moreover have "(r0, c0) \<in> set (cells b)" using rc(1) by (simp add: set_cells)
  ultimately have "m \<in> set vs"
    using scan_mem_conv[OF vs[unfolded get_valid_moves_eu_def] _ ll] by blast
  with vs show ?thesis by blast
qed


lemma two_pegs_not_solved: "truthy (is_solved_eu board_two_pegs) = False"
  by code_simp

lemma two_pegs_moves: "get_valid_moves_eu board_two_pegs = Inr [(0, 2, ''d'', 2)]"
  by code_simp

lemma two_pegs_expand:
  "expand \<lparr>node_board = board_two_pegs, node_moves = [], node_lvl = 0, node_idx = 0\<rparr> (Suc 0)
     (board_two_pegs, [], {board_two_pegs}, 0) [(0, 2, ''d'', 2)] =
   Inr ([[0, 0, - 1, - 1, 1, 0, 0],
         [0, 0, - 1, - 1, - 1, 0, 0],
         [- 1, - 1, - 1, - 1, - 1, - 1, - 1],
         [- 1, - 1, - 1, - 1, - 1, - 1, - 1],
         [- 1, - 1, - 1, - 1, - 1, - 1, - 1],
         [0, 0, - 1, - 1, - 1, 0, 0],
         [0, 0, - 1, - 1, - 1, 0, 0]], [], {board_two_pegs}, 1)"
  by code_simp

lemma two_pegs_one_move_solves:
  "make_move (board_two_pegs, []) (0, 2, ''d'', 2) =
     Inr ([[0, 0, - 1, - 1, 1, 0, 0],
           [0, 0, - 1, - 1, - 1, 0, 0],
           [- 1, - 1, - 1, - 1, - 1, - 1, - 1],
           [- 1, - 1, - 1, - 1, - 1, - 1, - 1],
           [- 1, - 1, - 1, - 1, - 1, - 1, - 1],
           [0, 0, - 1, - 1, - 1, 0, 0],
           [0, 0, - 1, - 1, - 1, 0, 0]], [(0, 4, ''d'', 2)]) \<and>
   truthy (is_solved_eu
          [[0, 0, - 1, - 1, 1, 0, 0],
           [0, 0, - 1, - 1, - 1, 0, 0],
           [- 1, - 1, - 1, - 1, - 1, - 1, - 1],
           [- 1, - 1, - 1, - 1, - 1, - 1, - 1],
           [- 1, - 1, - 1, - 1, - 1, - 1, - 1],
           [0, 0, - 1, - 1, - 1, 0, 0],
           [0, 0, - 1, - 1, - 1, 0, 0]])"
  by code_simp





lemma not_Inl_Inr: "(\<forall>e. x \<noteq> Inl e) \<longleftrightarrow> (\<exists>v. x = Inr v)"
  by (cases x) auto




lemma set_grid_cells: "set (grid_cells g) = {(i, j). i < length g \<and> j < length (g ! i)}"
  by (auto simp: grid_cells_def)

lemma in_vals:
  "v \<in> vals g P \<longleftrightarrow> (\<exists>i j. i < length g \<and> j < length (g ! i) \<and> P i j \<and> g ! i ! j = v \<and> v \<noteq> CHR ''.'')"
proof
  assume "v \<in> vals g P"
  then obtain p where p: "p \<in> set (grid_cells g)" "case p of (i, j) \<Rightarrow> P i j \<and> g ! i ! j \<noteq> CHR ''.''"
    "v = (case p of (i, j) \<Rightarrow> g ! i ! j)"
    unfolding vals_def by blast
  obtain i j where ij: "p = (i, j)" by (cases p)
  from p ij have "i < length g \<and> j < length (g ! i) \<and> P i j \<and> g ! i ! j = v \<and> v \<noteq> CHR ''.''"
    by (simp add: set_grid_cells)
  then show "\<exists>i j. i < length g \<and> j < length (g ! i) \<and> P i j \<and> g ! i ! j = v \<and> v \<noteq> CHR ''.''"
    by blast
next
  assume "\<exists>i j. i < length g \<and> j < length (g ! i) \<and> P i j \<and> g ! i ! j = v \<and> v \<noteq> CHR ''.''"
  then obtain i j where ij: "i < length g" "j < length (g ! i)" "P i j" "g ! i ! j = v" "v \<noteq> CHR ''.''"
    by blast
  then have "(i, j) \<in> {(i, j) \<in> set (grid_cells g). P i j \<and> g ! i ! j \<noteq> CHR ''.''}"
    by (simp add: set_grid_cells)
  then have "(case (i, j) of (i, j) \<Rightarrow> g ! i ! j) \<in> vals g P"
    unfolding vals_def by (rule imageI)
  with ij show "v \<in> vals g P" by simp
qed

lemma nth_nth_update:
  "i < length g \<Longrightarrow> j < length (g ! i) \<Longrightarrow>
   g[r := (g ! r)[c := d]] ! i ! j = (if i = r \<and> j = c then d else g ! i ! j)"
  by (cases "i = r"; cases "j = c") simp_all

lemma length_nth_update: "length (g[r := (g ! r)[c := d]] ! i) = length (g ! i)"
  by (cases "i = r"; cases "r < length g") (simp_all add: list_update_beyond)

lemma vals_place_iff:
  assumes r: "r < length g" and c: "c < length (g ! r)" and e: "g ! r ! c = CHR ''.''" and d: "d \<noteq> CHR ''.''"
  shows "v \<in> vals (g[r := (g ! r)[c := d]]) P \<longleftrightarrow> (P r c \<and> v = d) \<or> v \<in> vals g P"
proof
  assume "v \<in> vals (g[r := (g ! r)[c := d]]) P"
  then obtain i j where ij: "i < length g" "j < length (g ! i)" "P i j"
    and val: "g[r := (g ! r)[c := d]] ! i ! j = v" and nd: "v \<noteq> CHR ''.''"
    unfolding in_vals length_nth_update length_list_update by blast
  show "(P r c \<and> v = d) \<or> v \<in> vals g P"
  proof (cases "i = r \<and> j = c")
    case True
    with val ij have "v = d" by (simp add: nth_nth_update)
    with True ij show ?thesis by simp
  next
    case False
    with val ij have "g ! i ! j = v" by (simp add: nth_nth_update)
    with ij nd have "v \<in> vals g P" unfolding in_vals by blast
    then show ?thesis by simp
  qed
next
  assume a: "(P r c \<and> v = d) \<or> v \<in> vals g P"
  show "v \<in> vals (g[r := (g ! r)[c := d]]) P"
  proof (cases "v \<in> vals g P")
    case True
    then obtain i j where ij: "i < length g" "j < length (g ! i)" "P i j" "g ! i ! j = v" "v \<noteq> CHR ''.''"
      unfolding in_vals by blast
    with e have "\<not> (i = r \<and> j = c)" by blast
    with ij have "g[r := (g ! r)[c := d]] ! i ! j = v" by (auto simp: nth_nth_update)
    with ij show ?thesis unfolding in_vals length_nth_update length_list_update by blast
  next
    case False
    with a have "P r c" "v = d" by simp_all
    moreover have "g[r := (g ! r)[c := d]] ! r ! c = d" using r c by (simp add: nth_nth_update)
    ultimately show ?thesis using r c d unfolding in_vals length_nth_update length_list_update by blast
  qed
qed

lemma vals_place:
  assumes r: "r < length g" and c: "c < length (g ! r)" and e: "g ! r ! c = CHR ''.''" and d: "d \<noteq> CHR ''.''"
  shows "vals (g[r := (g ! r)[c := d]]) P = (if P r c then insert d (vals g P) else vals g P)"
proof (rule set_eqI)
  fix v
  show "v \<in> vals (g[r := (g ! r)[c := d]]) P \<longleftrightarrow> v \<in> (if P r c then insert d (vals g P) else vals g P)"
    unfolding vals_place_iff[OF assms] by (cases "P r c") simp_all
qed

lemma place_tracked:
  assumes t: "tracked s" and e: "grid_get (board s) r c = Inr (CHR ''.'')" and d: "d \<noteq> CHR ''.''"
    and p: "place s r c d = Inr s1"
  shows "tracked s1"
proof -
  let ?g = "board s"
  from e have r: "r < length ?g" and c: "c < length (?g ! r)" and dot: "?g ! r ! c = CHR ''.''"
    by (auto simp: grid_get_def split: if_splits)
  from p have s1: "board s1 = ?g[r := (?g ! r)[c := d]]"
    "rows s1 = (rows s)[r := insert d (rows s ! r)]"
    "cols s1 = (cols s)[c := insert d (cols s ! c)]"
    "boxes s1 = (boxes s)[box_of r c := insert d (boxes s ! box_of r c)]"
    by (auto simp: place_def bind_e_Inr grid_set_def set_add_def split: if_splits)
  from t have len: "length (rows s) = length ?g" "length (cols s) = length ?g" "length (boxes s) = length ?g"
    and eq: "\<And>k. k < length ?g \<Longrightarrow> rows s ! k = vals ?g (\<lambda>i j. i = k) \<and>
         cols s ! k = vals ?g (\<lambda>i j. j = k) \<and> boxes s ! k = vals ?g (\<lambda>i j. box_of i j = k)"
    by (auto simp: tracked_def)
  note vp = vals_place[OF r c dot d]
  show ?thesis
    unfolding tracked_def s1
  proof (intro conjI ballI)
    fix k assume "k \<in> set [0..<length (?g[r := (?g ! r)[c := d]])]"
    then have k: "k < length ?g" by simp
    show "(rows s)[r := insert d (rows s ! r)] ! k = vals (?g[r := (?g ! r)[c := d]]) (\<lambda>i j. i = k)"
      using eq[OF k] k len by (cases "k = r") (simp_all add: vp)
    show "(cols s)[c := insert d (cols s ! c)] ! k = vals (?g[r := (?g ! r)[c := d]]) (\<lambda>i j. j = k)"
      using eq[OF k] k len by (cases "k = c") (simp_all add: vp)
    show "(boxes s)[box_of r c := insert d (boxes s ! box_of r c)] ! k =
            vals (?g[r := (?g ! r)[c := d]]) (\<lambda>i j. box_of i j = k)"
      using eq[OF k] k len by (cases "k = box_of r c") (simp_all add: vp)
  qed (simp_all add: len)
qed

lemma set_add_nth:
  "set_add ss k v = Inr ss' \<Longrightarrow>
   length ss' = length ss \<and> (\<forall>k'<length ss. ss' ! k' = ss ! k' \<union> (if k = k' then {v} else {}))"
  by (auto simp: set_add_def nth_list_update split: if_splits)

lemma note_cell_dot: "note_cell s i j (CHR ''.'') = Inr (s\<lparr>empties := empties s @ [(i, j)]\<rparr>)"
  by (simp add: note_cell_def)

lemma note_cell_val:
  assumes "v \<noteq> CHR ''.''" "note_cell s i j v = Inr s'"
  shows "\<exists>rs cs bs. set_add (rows s) i v = Inr rs \<and> set_add (cols s) j v = Inr cs \<and>
           set_add (boxes s) (box_of i j) v = Inr bs \<and> s' = s\<lparr>rows := rs, cols := cs, boxes := bs\<rparr>"
  using assms by (auto simp: note_cell_def bind_e_Inr)

lemma note_cell_rows:
  assumes "note_cell s i j v = Inr s'"
  shows "length (rows s') = length (rows s) \<and>
         (\<forall>k<length (rows s). rows s' ! k = rows s ! k \<union> (if v \<noteq> CHR ''.'' \<and> i = k then {v} else {}))"
proof (cases "v = CHR ''.''")
  case True
  with assms show ?thesis by (auto simp: note_cell_dot)
next
  case False
  from note_cell_val[OF False assms] obtain rs cs bs where
    "set_add (rows s) i v = Inr rs" "s' = s\<lparr>rows := rs, cols := cs, boxes := bs\<rparr>" by blast
  with set_add_nth[of "rows s" i v rs] False show ?thesis by simp
qed

lemma note_cell_cols:
  assumes "note_cell s i j v = Inr s'"
  shows "length (cols s') = length (cols s) \<and>
         (\<forall>k<length (cols s). cols s' ! k = cols s ! k \<union> (if v \<noteq> CHR ''.'' \<and> j = k then {v} else {}))"
proof (cases "v = CHR ''.''")
  case True
  with assms show ?thesis by (auto simp: note_cell_dot)
next
  case False
  from note_cell_val[OF False assms] obtain rs cs bs where
    "set_add (cols s) j v = Inr cs" "s' = s\<lparr>rows := rs, cols := cs, boxes := bs\<rparr>" by blast
  with set_add_nth[of "cols s" j v cs] False show ?thesis by simp
qed

lemma note_cell_boxes:
  assumes "note_cell s i j v = Inr s'"
  shows "length (boxes s') = length (boxes s) \<and>
         (\<forall>k<length (boxes s). boxes s' ! k =
            boxes s ! k \<union> (if v \<noteq> CHR ''.'' \<and> box_of i j = k then {v} else {}))"
proof (cases "v = CHR ''.''")
  case True
  with assms show ?thesis by (auto simp: note_cell_dot)
next
  case False
  from note_cell_val[OF False assms] obtain rs cs bs where
    "set_add (boxes s) (box_of i j) v = Inr bs" "s' = s\<lparr>rows := rs, cols := cs, boxes := bs\<rparr>" by blast
  with set_add_nth[of "boxes s" "box_of i j" v bs] False show ?thesis by simp
qed

lemma find_row_family:
  assumes step: "\<And>s i j v s'. note_cell s i j v = Inr s' \<Longrightarrow>
      length (F s') = length (F s) \<and>
      (\<forall>k<length (F s). F s' ! k = F s ! k \<union> (if v \<noteq> CHR ''.'' \<and> key i j = k then {v} else {}))"
  shows "find_row s i j rest = Inr s' \<Longrightarrow>
     length (F s') = length (F s) \<and>
     (\<forall>k<length (F s). F s' ! k =
        F s ! k \<union> {v. v \<noteq> CHR ''.'' \<and> (\<exists>m<length rest. rest ! m = v \<and> key i (j + m) = k)})"
proof (induction rest arbitrary: s j)
  case Nil
  then show ?case by simp
next
  case (Cons x rest)
  from Cons.prems obtain s1 where n: "note_cell s i j x = Inr s1" and f: "find_row s1 i (Suc j) rest = Inr s'"
    by (auto simp: bind_e_Inr)
  note a = step[OF n]
  note b = Cons.IH[OF f]
  show ?case
  proof (intro conjI allI impI)
    show "length (F s') = length (F s)" using a b by simp
  next
    fix k assume k: "k < length (F s)"
    have 1: "F s1 ! k = F s ! k \<union> (if x \<noteq> CHR ''.'' \<and> key i j = k then {x} else {})" using a k by blast
    have 2: "F s' ! k = F s1 ! k \<union> {v. v \<noteq> CHR ''.'' \<and> (\<exists>m<length rest. rest ! m = v \<and> key i (Suc j + m) = k)}"
      using b a k by simp
    have 3: "(\<exists>m<length (x # rest). (x # rest) ! m = v \<and> key i (j + m) = k) \<longleftrightarrow>
             (x = v \<and> key i j = k) \<or> (\<exists>m<length rest. rest ! m = v \<and> key i (Suc j + m) = k)" for v
    proof
      assume "\<exists>m<length (x # rest). (x # rest) ! m = v \<and> key i (j + m) = k"
      then obtain m where m: "m < length (x # rest)" "(x # rest) ! m = v" "key i (j + m) = k" by blast
      show "(x = v \<and> key i j = k) \<or> (\<exists>m<length rest. rest ! m = v \<and> key i (Suc j + m) = k)"
      proof (cases m)
        case 0
        with m show ?thesis by simp
      next
        case (Suc m')
        with m have "m' < length rest" "rest ! m' = v" "key i (Suc j + m') = k" by simp_all
        then show ?thesis by blast
      qed
    next
      assume "(x = v \<and> key i j = k) \<or> (\<exists>m<length rest. rest ! m = v \<and> key i (Suc j + m) = k)"
      then show "\<exists>m<length (x # rest). (x # rest) ! m = v \<and> key i (j + m) = k"
      proof
        assume "x = v \<and> key i j = k"
        then have "0 < length (x # rest) \<and> (x # rest) ! 0 = v \<and> key i (j + 0) = k" by simp
        then show ?thesis by blast
      next
        assume "\<exists>m<length rest. rest ! m = v \<and> key i (Suc j + m) = k"
        then obtain m where "m < length rest" "rest ! m = v" "key i (Suc j + m) = k" by blast
        then have "Suc m < length (x # rest) \<and> (x # rest) ! Suc m = v \<and> key i (j + Suc m) = k" by simp
        then show ?thesis by blast
      qed
    qed
    show "F s' ! k = F s ! k \<union> {v. v \<noteq> CHR ''.'' \<and> (\<exists>m<length (x # rest). (x # rest) ! m = v \<and> key i (j + m) = k)}"
      unfolding 2 1 3 by auto
  qed
qed

lemma find_rows_family:
  assumes step: "\<And>s i j v s'. note_cell s i j v = Inr s' \<Longrightarrow>
      length (F s') = length (F s) \<and>
      (\<forall>k<length (F s). F s' ! k = F s ! k \<union> (if v \<noteq> CHR ''.'' \<and> key i j = k then {v} else {}))"
  shows "find_rows s i rl = Inr s' \<Longrightarrow>
     length (F s') = length (F s) \<and>
     (\<forall>k<length (F s). F s' ! k =
        F s ! k \<union> {v. v \<noteq> CHR ''.'' \<and> (\<exists>a<length rl. \<exists>m<length (rl ! a). rl ! a ! m = v \<and> key (i + a) m = k)})"
proof (induction rl arbitrary: s i)
  case Nil
  then show ?case by simp
next
  case (Cons row rl)
  from Cons.prems obtain s1 where n: "find_row s i 0 row = Inr s1" and f: "find_rows s1 (Suc i) rl = Inr s'"
    by (auto simp: bind_e_Inr)
  note a = find_row_family[of F key, OF step n]
  note b = Cons.IH[OF f]
  show ?case
  proof (intro conjI allI impI)
    show "length (F s') = length (F s)" using a b by simp
  next
    fix k assume k: "k < length (F s)"
    have 1: "F s1 ! k = F s ! k \<union> {v. v \<noteq> CHR ''.'' \<and> (\<exists>m<length row. row ! m = v \<and> key i m = k)}"
      using a k by simp
    have 2: "F s' ! k = F s1 ! k \<union>
        {v. v \<noteq> CHR ''.'' \<and> (\<exists>a<length rl. \<exists>m<length (rl ! a). rl ! a ! m = v \<and> key (Suc i + a) m = k)}"
      using b a k by simp
    have 3: "(\<exists>a<length (row # rl). \<exists>m<length ((row # rl) ! a). (row # rl) ! a ! m = v \<and> key (i + a) m = k) \<longleftrightarrow>
             (\<exists>m<length row. row ! m = v \<and> key i m = k) \<or>
             (\<exists>a<length rl. \<exists>m<length (rl ! a). rl ! a ! m = v \<and> key (Suc i + a) m = k)" for v
    proof
      assume "\<exists>a<length (row # rl). \<exists>m<length ((row # rl) ! a). (row # rl) ! a ! m = v \<and> key (i + a) m = k"
      then obtain a m where m: "a < length (row # rl)" "m < length ((row # rl) ! a)"
        "(row # rl) ! a ! m = v" "key (i + a) m = k" by blast
      show "(\<exists>m<length row. row ! m = v \<and> key i m = k) \<or>
             (\<exists>a<length rl. \<exists>m<length (rl ! a). rl ! a ! m = v \<and> key (Suc i + a) m = k)"
      proof (cases a)
        case 0
        with m have "m < length row" "row ! m = v" "key i m = k" by simp_all
        then show ?thesis by blast
      next
        case (Suc a')
        with m have "a' < length rl" "m < length (rl ! a')" "rl ! a' ! m = v" "key (Suc i + a') m = k"
          by simp_all
        then show ?thesis by blast
      qed
    next
      assume "(\<exists>m<length row. row ! m = v \<and> key i m = k) \<or>
             (\<exists>a<length rl. \<exists>m<length (rl ! a). rl ! a ! m = v \<and> key (Suc i + a) m = k)"
      then show "\<exists>a<length (row # rl). \<exists>m<length ((row # rl) ! a). (row # rl) ! a ! m = v \<and> key (i + a) m = k"
      proof
        assume "\<exists>m<length row. row ! m = v \<and> key i m = k"
        then obtain m where "m < length row" "row ! m = v" "key i m = k" by blast
        then have "0 < length (row # rl) \<and> m < length ((row # rl) ! 0) \<and> (row # rl) ! 0 ! m = v \<and> key (i + 0) m = k"
          by simp
        then show ?thesis by blast
      next
        assume "\<exists>a<length rl. \<exists>m<length (rl ! a). rl ! a ! m = v \<and> key (Suc i + a) m = k"
        then obtain a m where "a < length rl" "m < length (rl ! a)" "rl ! a ! m = v" "key (Suc i + a) m = k"
          by blast
        then have "Suc a < length (row # rl) \<and> m < length ((row # rl) ! Suc a) \<and>
                   (row # rl) ! Suc a ! m = v \<and> key (i + Suc a) m = k" by simp
        then show ?thesis by blast
      qed
    qed
    show "F s' ! k = F s ! k \<union>
        {v. v \<noteq> CHR ''.'' \<and> (\<exists>a<length (row # rl). \<exists>m<length ((row # rl) ! a). (row # rl) ! a ! m = v \<and> key (i + a) m = k)}"
      unfolding 2 1 3 by auto
  qed
qed

lemma note_cell_board: "note_cell s i j v = Inr s' \<Longrightarrow> board s' = board s"
  by (auto simp: note_cell_def bind_e_Inr split: if_splits)

lemma find_row_board: "find_row s i j rest = Inr s' \<Longrightarrow> board s' = board s"
  by (induction rest arbitrary: s j) (auto simp: bind_e_Inr dest: note_cell_board)

lemma find_rows_board: "find_rows s i rl = Inr s' \<Longrightarrow> board s' = board s"
  by (induction rl arbitrary: s i) (auto simp: bind_e_Inr dest: find_row_board)

lemma note_cell_empties:
  "note_cell s i j v = Inr s' \<Longrightarrow> empties s' = empties s @ (if v = CHR ''.'' then [(i, j)] else [])"
  by (auto simp: note_cell_def bind_e_Inr split: if_splits)

lemma upt_0_Suc: "[0..<Suc n] = 0 # map Suc [0..<n]"
  by (simp add: upt_conv_Cons map_Suc_upt del: upt_Suc)

lemma find_row_empties:
  "find_row s i j rest = Inr s' \<Longrightarrow>
   empties s' = empties s @ map (\<lambda>m. (i, j + m)) (filter (\<lambda>m. rest ! m = CHR ''.'') [0..<length rest])"
proof (induction rest arbitrary: s j)
  case Nil
  then show ?case by simp
next
  case (Cons x rest)
  from Cons.prems obtain s1 where n: "note_cell s i j x = Inr s1" and f: "find_row s1 i (Suc j) rest = Inr s'"
    by (auto simp: bind_e_Inr)
  have "filter (\<lambda>m. (x # rest) ! m = CHR ''.'') [0..<length (x # rest)] =
        (if x = CHR ''.'' then [0] else []) @ map Suc (filter (\<lambda>m. rest ! m = CHR ''.'') [0..<length rest])"
    by (simp add: upt_0_Suc filter_map comp_def del: upt_Suc)
  then show ?case
    using Cons.IH[OF f] note_cell_empties[OF n] by (simp add: comp_def del: upt_Suc)
qed

lemma find_rows_empties:
  "find_rows s i rl = Inr s' \<Longrightarrow>
   empties s' = empties s @
     concat (map (\<lambda>a. map (\<lambda>m. (i + a, m)) (filter (\<lambda>m. rl ! a ! m = CHR ''.'') [0..<length (rl ! a)]))
       [0..<length rl])"
proof (induction rl arbitrary: s i)
  case Nil
  then show ?case by simp
next
  case (Cons row rl)
  from Cons.prems obtain s1 where n: "find_row s i 0 row = Inr s1" and f: "find_rows s1 (Suc i) rl = Inr s'"
    by (auto simp: bind_e_Inr)
  show ?case
    using Cons.IH[OF f] find_row_empties[OF n]
    by (simp add: upt_0_Suc comp_def del: upt_Suc)
qed

lemma filter_concat_map:
  "filter P (concat (map f xs)) = concat (map (\<lambda>x. filter P (f x)) xs)"
  by (induction xs) simp_all

lemma empty_cells_alt:
  "empty_cells g =
     concat (map (\<lambda>a. map (\<lambda>m. (0 + a, m)) (filter (\<lambda>m. g ! a ! m = CHR ''.'') [0..<length (g ! a)]))
       [0..<length g])"
  by (simp add: empty_cells_def grid_cells_def filter_concat_map filter_map comp_def)

lemma find_empties_spec:
  assumes "find_empties (init_state g) = Inr s"
  shows "tracked s \<and> board s = g \<and> empties s = empty_cells g"
proof -
  let ?s0 = "init_state g"
  from assms have f: "find_rows ?s0 0 g = Inr s" by (simp add: find_empties_def init_state_def)
  have b: "board s = g" using find_rows_board[OF f] by (simp add: init_state_def)
  have e: "empties s = empty_cells g"
    using find_rows_empties[OF f] by (simp add: empty_cells_alt init_state_def)
  have fam: "length (F s) = length g \<and> (\<forall>k<length g. F s ! k = vals g (\<lambda>i j. key i j = k))"
    if step: "\<And>s i j v s'. note_cell s i j v = Inr s' \<Longrightarrow>
      length (F s') = length (F s) \<and>
      (\<forall>k<length (F s). F s' ! k = F s ! k \<union> (if v \<noteq> CHR ''.'' \<and> key i j = k then {v} else {}))"
      and init: "F ?s0 = replicate (length g) {}" for F key
  proof -
    from find_rows_family[of F key, OF step f] init
    have len: "length (F s) = length g"
      and eq: "\<And>k. k < length g \<Longrightarrow> F s ! k =
        {v. v \<noteq> CHR ''.'' \<and> (\<exists>a<length g. \<exists>m<length (g ! a). g ! a ! m = v \<and> key (0 + a) m = k)}"
      by auto
    have "F s ! k = vals g (\<lambda>i j. key i j = k)" if k: "k < length g" for k
    proof (rule set_eqI)
      fix v
      show "v \<in> F s ! k \<longleftrightarrow> v \<in> vals g (\<lambda>i j. key i j = k)"
        unfolding eq[OF k] in_vals by auto
    qed
    with len show ?thesis by blast
  qed
  have r: "length (rows s) = length g \<and> (\<forall>k<length g. rows s ! k = vals g (\<lambda>i j. i = k))"
    using fam[of rows "\<lambda>i j. i"] note_cell_rows by (simp add: init_state_def)
  have c: "length (cols s) = length g \<and> (\<forall>k<length g. cols s ! k = vals g (\<lambda>i j. j = k))"
    using fam[of cols "\<lambda>i j. j"] note_cell_cols by (simp add: init_state_def)
  have x: "length (boxes s) = length g \<and> (\<forall>k<length g. boxes s ! k = vals g (\<lambda>i j. box_of i j = k))"
    using fam[of boxes box_of] note_cell_boxes by (simp add: init_state_def)
  from r c x b e show ?thesis by (simp add: tracked_def)
qed

lemma note_cell_total:
  assumes "i < length (rows s)" "j < length (cols s)" "box_of i j < length (boxes s)"
  shows "\<exists>s'. note_cell s i j v = Inr s'"
  using assms by (simp add: note_cell_def set_add_def bind_e_def)

lemma box_of_less: "i < 9 \<Longrightarrow> j < 9 \<Longrightarrow> box_of i j < 9"
proof -
  assume "i < 9" "j < 9"
  then have "i div 3 \<le> 2" "j div 3 \<le> 2" by simp_all
  then show ?thesis unfolding box_of_def by simp
qed

lemma find_row_total:
  assumes "length (rows s) = 9" "length (cols s) = 9" "length (boxes s) = 9" "i < 9" "j + length rest \<le> 9"
  shows "\<exists>s'. find_row s i j rest = Inr s'"
  using assms
proof (induction rest arbitrary: s j)
  case Nil
  then show ?case by simp
next
  case (Cons v rest)
  from Cons.prems have j: "j < 9" by simp
  from note_cell_total[of i s j v] Cons.prems j box_of_less[OF Cons.prems(4) j]
  obtain s1 where n: "note_cell s i j v = Inr s1" by auto
  from note_cell_rows[OF n] note_cell_cols[OF n] note_cell_boxes[OF n] Cons.prems
  have "length (rows s1) = 9" "length (cols s1) = 9" "length (boxes s1) = 9" by simp_all
  from Cons.IH[OF this Cons.prems(4), of "Suc j"] Cons.prems(5)
  obtain s' where "find_row s1 i (Suc j) rest = Inr s'"
    by auto
  with n show ?case by (simp add: bind_e_def)
qed

lemma find_rows_total:
  assumes "length (rows s) = 9" "length (cols s) = 9" "length (boxes s) = 9" "i + length rl \<le> 9"
    "\<forall>row \<in> set rl. length row = 9"
  shows "\<exists>s'. find_rows s i rl = Inr s'"
  using assms
proof (induction rl arbitrary: s i)
  case Nil
  then show ?case by simp
next
  case (Cons row rl)
  from Cons.prems have i: "i < 9" and row: "0 + length row \<le> 9" by simp_all
  from find_row_total[OF Cons.prems(1,2,3) i row] obtain s1 where n: "find_row s i 0 row = Inr s1" by blast
  from find_row_family[of rows "\<lambda>i j. i", OF note_cell_rows n]
       find_row_family[of cols "\<lambda>i j. j", OF note_cell_cols n]
       find_row_family[of boxes box_of, OF note_cell_boxes n] Cons.prems
  have "length (rows s1) = 9" "length (cols s1) = 9" "length (boxes s1) = 9" by simp_all
  from Cons.IH[OF this, of "Suc i"] Cons.prems(4,5)
  obtain s' where "find_rows s1 (Suc i) rl = Inr s'" by auto
  with n show ?case by (simp add: bind_e_def)
qed

lemma find_empties_total: "nine_by_nine g \<Longrightarrow> \<exists>s. find_empties (init_state g) = Inr s"
  unfolding find_empties_def
  by (rule find_rows_total[of "init_state g" 0 "board (init_state g)"])
     (simp_all add: init_state_def nine_by_nine_def)

lemma place_moves_tracked:
  assumes rec: "\<And>s ok s'. tracked s \<Longrightarrow> rec s = Some (Inr (ok, s')) \<Longrightarrow> tracked s'"
    and fail: "\<And>s s'. rec s = Some (Inr (False, s')) \<Longrightarrow> s' = s"
    and t: "tracked s"
    and e: "grid_get (board s) r c = Inr (CHR ''.'')"
    and f: "\<forall>d \<in> set ds. free_at s r c d \<and> d \<noteq> CHR ''.''"
    and res: "place_moves rec s r c ds = Some (Inr (ok, s'))"
  shows "tracked s'"
  using f res
proof (induction ds)
  case Nil
  with t show ?case by simp
next
  case (Cons d ds)
  from Cons.prems(1) have fd: "free_at s r c d" and nd: "d \<noteq> CHR ''.''" by simp_all
  from place_unplace[OF fd e] obtain s1 where p: "place s r c d = Inr s1" and u: "unplace s1 r c d = Inr s"
    by blast
  from place_tracked[OF t e nd p] have t1: "tracked s1" .
  from Cons.prems(2) p obtain ok2 s2 where r2: "rec s1 = Some (Inr (ok2, s2))"
    by (auto split: option.splits sum.splits)
  show ?case
  proof (cases ok2)
    case True
    with Cons.prems(2) p r2 have "s' = s2" by simp
    with rec[OF t1 r2] show ?thesis by simp
  next
    case False
    with fail[of s1 s2] r2 have "s2 = s1" by simp
    with Cons.prems(2) p r2 False u have "place_moves rec s r c ds = Some (Inr (ok, s'))" by simp
    with Cons.IH Cons.prems(1) show ?thesis by simp
  qed
qed

lemma valid_loop_digits: "valid_loop s r c ds = Inr mv \<Longrightarrow> set mv \<subseteq> set ds"
  using valid_loop_mem by blast

lemma validMove_not_dot:
  assumes "validMove s (r, c) = Inr mv" "d \<in> set mv"
  shows "d \<noteq> CHR ''.''"
proof -
  from assms(1) have "valid_loop s r c ''123456789'' = Inr mv"
    unfolding validMove_def by (simp only: case_prod_conv)
  from valid_loop_digits[OF this] assms(2) have "d \<in> set ''123456789''" by blast
  then show ?thesis by auto
qed

lemma dfs_rec_tracked: "tracked s \<Longrightarrow> dfs_rec n idx s = Some (Inr (ok, s')) \<Longrightarrow> tracked s'"
proof (induction n arbitrary: idx s ok s')
  case 0
  then show ?case by simp
next
  case (Suc n)
  show ?case
  proof (cases "idx = length (empties s)")
    case True
    with Suc.prems show ?thesis by simp
  next
    case False
    with Suc.prems have lt: "idx < length (empties s)" by (auto split: if_splits)
    obtain r c where rc: "empties s ! idx = (r, c)" by (cases "empties s ! idx")
    from Suc.prems lt rc obtain ch where ch: "grid_get (board s) r c = Inr ch"
      by (auto split: sum.splits)
    show ?thesis
    proof (cases "ch = CHR ''.''")
      case False
      with Suc.prems lt rc ch have "dfs_rec n (Suc idx) s = Some (Inr (ok, s'))" by simp
      with Suc.IH Suc.prems(1) show ?thesis by blast
    next
      case True
      with Suc.prems lt rc ch obtain mv where mv: "validMove s (r, c) = Inr mv"
        and pm: "place_moves (dfs_rec n (Suc idx)) s r c mv = Some (Inr (ok, s'))"
        by (auto split: sum.splits)
      show ?thesis
      proof (rule place_moves_tracked[OF _ _ Suc.prems(1) _ _ pm])
        show "\<And>s ok s'. tracked s \<Longrightarrow> dfs_rec n (Suc idx) s = Some (Inr (ok, s')) \<Longrightarrow> tracked s'"
          by (rule Suc.IH)
        show "\<And>s s'. dfs_rec n (Suc idx) s = Some (Inr (False, s')) \<Longrightarrow> s' = s"
          by (rule dfs_rec_fail)
        show "grid_get (board s) r c = Inr (CHR ''.'')" using ch True by simp
        show "\<forall>d \<in> set mv. free_at s r c d \<and> d \<noteq> CHR ''.''"
          using mv validMove_mem validMove_not_dot by blast
      qed
    qed
  qed
qed

lemma in_present: "v \<in> present xs \<longleftrightarrow> v \<in> set xs \<and> v \<noteq> CHR ''.''"
  by (simp add: present_def)

lemma vals_row:
  assumes r: "r < length g"
  shows "vals g (\<lambda>i j. i = r) = row_digits g r"
proof (rule set_eqI)
  fix v
  have "(\<exists>i j. i < length g \<and> j < length (g ! i) \<and> i = r \<and> g ! i ! j = v \<and> v \<noteq> CHR ''.'') \<longleftrightarrow>
        (\<exists>j. j < length (g ! r) \<and> g ! r ! j = v) \<and> v \<noteq> CHR ''.''"
    using r by blast
  then show "v \<in> vals g (\<lambda>i j. i = r) \<longleftrightarrow> v \<in> row_digits g r"
    unfolding in_vals row_digits_def in_present in_set_conv_nth by simp
qed

lemma vals_col:
  assumes g: "nine_by_nine g" and c: "c < 9"
  shows "vals g (\<lambda>i j. j = c) = col_digits g c"
proof (rule set_eqI)
  fix v
  from g have len: "\<And>i. i < length g \<Longrightarrow> length (g ! i) = 9" by (simp add: nine_by_nine_def)
  have "(\<exists>i j. i < length g \<and> j < length (g ! i) \<and> j = c \<and> g ! i ! j = v \<and> v \<noteq> CHR ''.'') \<longleftrightarrow>
        (\<exists>i. i < length g \<and> g ! i ! c = v) \<and> v \<noteq> CHR ''.''"
    using c len by auto
  moreover have "v \<in> set (map (\<lambda>row. row ! c) g) \<longleftrightarrow> (\<exists>i. i < length g \<and> g ! i ! c = v)"
    unfolding in_set_conv_nth by auto
  ultimately show "v \<in> vals g (\<lambda>i j. j = c) \<longleftrightarrow> v \<in> col_digits g c"
    unfolding in_vals col_digits_def in_present by simp
qed

lemma div3_range: "(i::nat) div 3 = q \<longleftrightarrow> 3 * q \<le> i \<and> i < 3 * q + 3"
  by presburger

lemma offset_range: "(\<exists>a<3. (i::nat) = m + a) \<longleftrightarrow> m \<le> i \<and> i < m + 3"
proof
  assume "\<exists>a<3. i = m + a"
  then show "m \<le> i \<and> i < m + 3" by auto
next
  assume a: "m \<le> i \<and> i < m + 3"
  then have "i - m < 3 \<and> i = m + (i - m)" by arith
  then show "\<exists>a<3. i = m + a" by (rule exI)
qed

lemma box_cells_offsets:
  "(i, j) \<in> set (box_cells r c) \<longleftrightarrow>
     (\<exists>a<3. i = 3 * (r div 3) + a) \<and> (\<exists>b<3. j = 3 * (c div 3) + b)"
proof -
  have "(i, j) \<in> set (box_cells r c) \<longleftrightarrow>
        (\<exists>a\<in>{0..<3}. \<exists>b\<in>{0..<3}. i = 3 * (r div 3) + a \<and> j = 3 * (c div 3) + b)"
    unfolding box_cells_def by (simp del: upt_rec_numeral add: image_iff)
  also have "\<dots> \<longleftrightarrow> (\<exists>a<3. i = 3 * (r div 3) + a) \<and> (\<exists>b<3. j = 3 * (c div 3) + b)"
    by (simp only: Bex_def atLeastLessThan_iff) blast
  finally show ?thesis .
qed

lemma box_cells_mem:
  "(i, j) \<in> set (box_cells r c) \<longleftrightarrow> i div 3 = r div 3 \<and> j div 3 = c div 3"
  unfolding box_cells_offsets offset_range div3_range ..

lemma base3_eq: "(b::nat) < 3 \<Longrightarrow> d < 3 \<Longrightarrow> a * 3 + b = c * 3 + d \<longleftrightarrow> a = c \<and> b = d"
  by presburger

lemma box_of_is_3x3:
  assumes "j < 9" and "c < 9"
  shows "box_of i j = box_of r c \<longleftrightarrow> i div 3 = r div 3 \<and> j div 3 = c div 3"
proof -
  from assms have "j div 3 < 3" "c div 3 < 3" by simp_all
  then show ?thesis unfolding box_of_def by (rule base3_eq)
qed

lemma in_box_less:
  assumes "(i::nat) div 3 = r div 3" and "r < 9"
  shows "i < 9"
  using assms by presburger

lemma box_corner: "k < 9 \<Longrightarrow> box_of (3 * (k div 3)) (3 * (k mod 3)) = k"
  unfolding box_of_def by simp

lemma vals_box:
  assumes g: "nine_by_nine g" and r: "r < 9" and c: "c < 9"
  shows "vals g (\<lambda>i j. box_of i j = box_of r c) = box_digits g r c"
proof (rule set_eqI)
  fix v
  from g have lg: "length g = 9" and len: "\<And>i. i < 9 \<Longrightarrow> length (g ! i) = 9"
    by (simp_all add: nine_by_nine_def)
  have in9: "i < 9 \<and> j < 9" if "i div 3 = r div 3" "j div 3 = c div 3" for i j
    using in_box_less[OF that(1) r] in_box_less[OF that(2) c] by simp
  have "(\<exists>i j. i < length g \<and> j < length (g ! i) \<and> box_of i j = box_of r c \<and> g ! i ! j = v \<and> v \<noteq> CHR ''.'') \<longleftrightarrow>
        (\<exists>i j. i div 3 = r div 3 \<and> j div 3 = c div 3 \<and> g ! i ! j = v) \<and> v \<noteq> CHR ''.''"
    (is "?L \<longleftrightarrow> ?R")
  proof
    assume ?L
    then obtain i j where ij: "i < length g" "j < length (g ! i)" "box_of i j = box_of r c"
      "g ! i ! j = v" "v \<noteq> CHR ''.''" by blast
    from ij lg len have "j < 9" by simp
    from box_of_is_3x3[OF this c, of i r] ij show ?R by blast
  next
    assume ?R
    then obtain i j where ij: "i div 3 = r div 3" "j div 3 = c div 3" "g ! i ! j = v" "v \<noteq> CHR ''.''"
      by blast
    from in9[OF ij(1,2)] have i9: "i < 9" and j9: "j < 9" by simp_all
    from box_of_is_3x3[OF j9 c, of i r] ij have b: "box_of i j = box_of r c" by simp
    from i9 j9 lg len have "i < length g" "j < length (g ! i)" by simp_all
    with b ij show ?L by blast
  qed
  moreover have "v \<in> set (map (\<lambda>(a, b). g ! a ! b) (box_cells r c)) \<longleftrightarrow>
        (\<exists>i j. i div 3 = r div 3 \<and> j div 3 = c div 3 \<and> g ! i ! j = v)"
  proof
    assume "v \<in> set (map (\<lambda>(a, b). g ! a ! b) (box_cells r c))"
    then obtain p where p: "p \<in> set (box_cells r c)" "v = (case p of (a, b) \<Rightarrow> g ! a ! b)"
      unfolding set_map by blast
    obtain i j where ij: "p = (i, j)" by (cases p)
    from p ij have "i div 3 = r div 3 \<and> j div 3 = c div 3 \<and> g ! i ! j = v"
      by (simp add: box_cells_mem)
    then show "\<exists>i j. i div 3 = r div 3 \<and> j div 3 = c div 3 \<and> g ! i ! j = v" by blast
  next
    assume "\<exists>i j. i div 3 = r div 3 \<and> j div 3 = c div 3 \<and> g ! i ! j = v"
    then obtain i j where ij: "i div 3 = r div 3" "j div 3 = c div 3" "g ! i ! j = v" by blast
    then have "(i, j) \<in> set (box_cells r c)" by (simp add: box_cells_mem)
    then have "(case (i, j) of (a, b) \<Rightarrow> g ! a ! b) \<in> (\<lambda>(a, b). g ! a ! b) ` set (box_cells r c)"
      by (rule imageI)
    with ij show "v \<in> set (map (\<lambda>(a, b). g ! a ! b) (box_cells r c))" by simp
  qed
  ultimately show "v \<in> vals g (\<lambda>i j. box_of i j = box_of r c) \<longleftrightarrow> v \<in> box_digits g r c"
    unfolding in_vals box_digits_def in_present by simp
qed

lemma tracked_agrees:
  assumes g: "nine_by_nine (board s)"
  shows "tracked s \<longleftrightarrow> agrees s"
proof
  from g have lg: "length (board s) = 9" by (simp add: nine_by_nine_def)
  {
    assume t: "tracked s"
    from t lg have len: "length (rows s) = 9" "length (cols s) = 9" "length (boxes s) = 9"
      and eq: "\<And>k. k < 9 \<Longrightarrow> rows s ! k = vals (board s) (\<lambda>i j. i = k) \<and>
           cols s ! k = vals (board s) (\<lambda>i j. j = k) \<and> boxes s ! k = vals (board s) (\<lambda>i j. box_of i j = k)"
      by (auto simp: tracked_def)
    show "agrees s"
      unfolding agrees_def
    proof (intro conjI ballI)
      fix i j assume "i \<in> set [0..<9]" "j \<in> set [0..<9]"
      then have i: "i < 9" and j: "j < 9" by simp_all
      show "rows s ! i = row_digits (board s) i" using eq[OF i] vals_row[of i "board s"] i lg by simp
      show "cols s ! j = col_digits (board s) j" using eq[OF j] vals_col[OF g j] by simp
      have "boxes s ! box_of i j = vals (board s) (\<lambda>a b. box_of a b = box_of i j)"
        using eq[OF box_of_less[OF i j]] by simp
      then show "boxes s ! ((i div 3) * 3 + j div 3) = box_digits (board s) i j"
        using vals_box[OF g i j] by (simp add: box_of_def)
    qed (simp_all add: len)
  }
  {
    assume a: "agrees s"
    then have len: "length (rows s) = 9" "length (cols s) = 9" "length (boxes s) = 9"
      and eq: "\<And>i j. i < 9 \<Longrightarrow> j < 9 \<Longrightarrow> rows s ! i = row_digits (board s) i \<and>
           cols s ! j = col_digits (board s) j \<and>
           boxes s ! ((i div 3) * 3 + j div 3) = box_digits (board s) i j"
      by (auto simp: agrees_def)
    show "tracked s"
      unfolding tracked_def
    proof (intro conjI ballI)
      fix k assume "k \<in> set [0..<length (board s)]"
      then have k: "k < 9" using lg by simp
      have z: "(0::nat) < 9" by simp
      show "rows s ! k = vals (board s) (\<lambda>i j. i = k)"
        using eq[OF k z] vals_row[of k "board s"] k lg by simp
      show "cols s ! k = vals (board s) (\<lambda>i j. j = k)"
        using eq[OF z k] vals_col[OF g k] by simp
      have r: "3 * (k div 3) < 9" using k by presburger
      have c: "3 * (k mod 3) < 9" by presburger
      have bk: "box_of (3 * (k div 3)) (3 * (k mod 3)) = k" using k by (rule box_corner)
      from eq[OF r c] have "boxes s ! k = box_digits (board s) (3 * (k div 3)) (3 * (k mod 3))"
        using bk by (simp add: box_of_def)
      then show "boxes s ! k = vals (board s) (\<lambda>i j. box_of i j = k)"
        using vals_box[OF g r c] bk by simp
    qed (simp_all add: len lg)
  }
qed

lemma free_digit_tracked:
  assumes t: "tracked s" and g: "nine_by_nine (board s)" and r: "r < 9" and c: "c < 9"
  shows "free_digit s r c d = Inr (d \<notin> peers (board s) r c)"
proof -
  from g have lg: "length (board s) = 9" by (simp add: nine_by_nine_def)
  have b: "box_of r c < 9" using r c by (rule box_of_less)
  from t r c b lg have "rows s ! r = vals (board s) (\<lambda>i j. i = r)" "cols s ! c = vals (board s) (\<lambda>i j. j = c)"
    "boxes s ! box_of r c = vals (board s) (\<lambda>i j. box_of i j = box_of r c)"
    "length (rows s) = 9" "length (cols s) = 9" "length (boxes s) = 9"
    by (simp_all add: tracked_def)
  then have "rows s ! r = row_digits (board s) r" "cols s ! c = col_digits (board s) c"
    "boxes s ! box_of r c = box_digits (board s) r c"
    "length (rows s) = 9" "length (cols s) = 9" "length (boxes s) = 9"
    using vals_row[of r "board s"] vals_col[OF g c] vals_box[OF g r c] r lg by simp_all
  then show ?thesis using r c b by (simp add: free_digit_def peers_def)
qed

lemma valid_loop_filter:
  assumes "\<And>d. free_digit s r c d = Inr (Q d)"
  shows "valid_loop s r c ds = Inr (filter Q ds)"
  by (induction ds) (simp_all add: assms bind_e_def)

lemma validMove_tracked:
  assumes t: "tracked s" and g: "nine_by_nine (board s)" and r: "r < 9" and c: "c < 9"
  shows "validMove s (r, c) = Inr (filter (\<lambda>d. d \<notin> peers (board s) r c) ''123456789'')"
  unfolding validMove_def case_prod_conv
  by (rule valid_loop_filter) (rule free_digit_tracked[OF assms])

lemma filter_single:
  assumes "length (filter P xs) + 1 = length xs"
  shows "\<exists>d. filter (\<lambda>x. \<not> P x) xs = [d]"
proof -
  from sum_length_filter_compl[of P xs] assms have "length (filter (\<lambda>x. \<not> P x) xs) = 1" by simp
  then show ?thesis by (cases "filter (\<lambda>x. \<not> P x) xs") auto
qed

lemma empty_cells_mem:
  "(i, j) \<in> set (empty_cells g) \<longleftrightarrow> i < length g \<and> j < length (g ! i) \<and> g ! i ! j = CHR ''.''"
  by (auto simp: empty_cells_def set_grid_cells)

lemma empty_cells_filled:
  assumes e: "empty_cells g = [(r, c)]" and d: "d \<noteq> CHR ''.''"
  shows "empty_cells (g[r := (g ! r)[c := d]]) = []"
proof -
  let ?g = "g[r := (g ! r)[c := d]]"
  have "(i, j) \<notin> set (empty_cells ?g)" for i j
  proof
    assume "(i, j) \<in> set (empty_cells ?g)"
    then have ij: "i < length g" "j < length (g ! i)" "?g ! i ! j = CHR ''.''"
      by (simp_all add: empty_cells_mem length_nth_update)
    show False
    proof (cases "i = r \<and> j = c")
      case True
      with ij d show False by (simp add: nth_nth_update)
    next
      case False
      with ij have "g ! i ! j = CHR ''.''" by (auto simp: nth_nth_update)
      with ij have "(i, j) \<in> set (empty_cells g)" by (simp add: empty_cells_mem)
      with e False show False by simp
    qed
  qed
  then show ?thesis by (cases "empty_cells ?g") auto
qed

lemma single_empty_cell:
  assumes g: "nine_by_nine g" and e: "empty_cells g = [(r, c)]"
    and p: "length (filter (\<lambda>d. d \<in> peers g r c) ''123456789'') = 8"
  shows "\<exists>s d s1. find_empties (init_state g) = Inr s \<and> empties s = [(r, c)] \<and>
           d \<in> set ''123456789'' \<and> d \<notin> peers g r c \<and>
           validMove s (r, c) = Inr [d] \<and> place s r c d = Inr s1 \<and>
           board s1 = g[r := (g ! r)[c := d]] \<and>
           dfs_rec (Suc n) 1 s1 = Some (Inr (True, s1)) \<and> empty_cells (board s1) = [] \<and>
           dfs_rec (Suc (Suc n)) 0 s = Some (Inr (True, s1))"
proof -
  from find_empties_total[OF g] obtain s where fe: "find_empties (init_state g) = Inr s" by blast
  from find_empties_spec[OF fe] have t: "tracked s" and b: "board s = g" and es: "empties s = [(r, c)]"
    using e by simp_all
  have len: "length g = 9" and rowlen: "\<And>i. i < 9 \<Longrightarrow> length (g ! i) = 9"
    using g by (auto simp: nine_by_nine_def)
  have "(r, c) \<in> set (empty_cells g)" using e by simp
  then have r: "r < 9" and c: "c < 9" and dot: "g ! r ! c = CHR ''.''"
    using len rowlen by (auto simp: empty_cells_mem)
  have vm: "validMove s (r, c) = Inr (filter (\<lambda>d. d \<notin> peers g r c) ''123456789'')"
    using validMove_tracked[OF t, of r c] g r c b by simp
  from filter_single[of "\<lambda>d. d \<in> peers g r c" "''123456789''"] p
  obtain d where d: "filter (\<lambda>d. d \<notin> peers g r c) ''123456789'' = [d]" by auto
  have "d \<in> set (filter (\<lambda>d. d \<notin> peers g r c) ''123456789'')" unfolding d by simp
  then have dd: "d \<in> set ''123456789''" and dp: "d \<notin> peers g r c"
    unfolding set_filter by simp_all
  have vm1: "validMove s (r, c) = Inr [d]" using vm d by simp
  have gg: "grid_get (board s) r c = Inr (CHR ''.'')"
    using r c dot len rowlen b by (simp add: grid_get_def)
  have dm: "d \<in> set [d]" by simp
  from place_unplace[OF validMove_mem[OF vm1 dm] gg] obtain s1 where pl: "place s r c d = Inr s1" by blast
  have nd: "d \<noteq> CHR ''.''" using validMove_not_dot[OF vm1 dm] .
  from pl have e1: "empties s1 = [(r, c)]" and b1: "board s1 = g[r := (g ! r)[c := d]]"
    using es b by (auto simp: place_def bind_e_Inr grid_set_def split: if_splits)
  have goal: "dfs_rec (Suc n) 1 s1 = Some (Inr (True, s1))" using e1 by simp
  have filled: "empty_cells (board s1) = []" unfolding b1 by (rule empty_cells_filled[OF e nd])
  have "dfs_rec (Suc (Suc n)) 0 s = Some (Inr (True, s1))"
    using es gg vm1 pl goal by simp
  with fe es dd dp vm1 pl b1 goal filled show ?thesis by blast
qed

lemma nine_by_nine_nth: "nine_by_nine g \<longleftrightarrow> length g = 9 \<and> (\<forall>i<9. length (g ! i) = 9)"
  unfolding nine_by_nine_def by (auto simp: all_set_conv_all_nth)

lemma grid_set_nine: "grid_set g r c v = Inr g' \<Longrightarrow> nine_by_nine g' = nine_by_nine g"
  unfolding nine_by_nine_nth by (auto simp: grid_set_def length_nth_update split: if_splits)

lemma place_nine: "place s r c d = Inr s1 \<Longrightarrow> nine_by_nine (board s1) = nine_by_nine (board s)"
  by (auto simp: place_def bind_e_Inr grid_set_nine)

lemma unplace_nine: "unplace s r c d = Inr s1 \<Longrightarrow> nine_by_nine (board s1) = nine_by_nine (board s)"
  by (auto simp: unplace_def bind_e_Inr grid_set_nine)

lemma place_moves_nine:
  assumes rec: "\<And>s r' s'. rec s = Some (Inr (r', s')) \<Longrightarrow> nine_by_nine (board s') = nine_by_nine (board s)"
  shows "place_moves rec s r c ds = Some (Inr (ok, s')) \<Longrightarrow>
         nine_by_nine (board s') = nine_by_nine (board s)"
proof (induction ds arbitrary: s)
  case Nil
  then show ?case by simp
next
  case (Cons d ds)
  from Cons.prems obtain s1 where p: "place s r c d = Inr s1" by (auto split: sum.splits)
  from Cons.prems p obtain ok2 s2 where r2: "rec s1 = Some (Inr (ok2, s2))"
    by (auto split: option.splits sum.splits)
  have e2: "nine_by_nine (board s2) = nine_by_nine (board s)" using rec[OF r2] place_nine[OF p] by simp
  show ?case
  proof (cases ok2)
    case True
    with Cons.prems p r2 e2 show ?thesis by simp
  next
    case False
    with Cons.prems p r2 obtain s3 where u: "unplace s2 r c d = Inr s3"
      and rest: "place_moves rec s3 r c ds = Some (Inr (ok, s'))"
      by (auto split: sum.splits)
    from Cons.IH[OF rest] unplace_nine[OF u] e2 show ?thesis by simp
  qed
qed

lemma dfs_rec_nine:
  "dfs_rec n idx s = Some (Inr (ok, s')) \<Longrightarrow> nine_by_nine (board s') = nine_by_nine (board s)"
proof (induction n arbitrary: idx s ok s')
  case 0
  then show ?case by simp
next
  case (Suc n)
  show ?case
  proof (cases "idx = length (empties s)")
    case True
    with Suc.prems show ?thesis by simp
  next
    case False
    with Suc.prems have lt: "idx < length (empties s)" by (auto split: if_splits)
    obtain r c where rc: "empties s ! idx = (r, c)" by (cases "empties s ! idx")
    from Suc.prems lt rc obtain ch where ch: "grid_get (board s) r c = Inr ch"
      by (auto split: sum.splits)
    show ?thesis
    proof (cases "ch = CHR ''.''")
      case False
      with Suc.prems lt rc ch have "dfs_rec n (Suc idx) s = Some (Inr (ok, s'))" by simp
      then show ?thesis by (rule Suc.IH)
    next
      case True
      with Suc.prems lt rc ch obtain mv where mv: "validMove s (r, c) = Inr mv"
        and pm: "place_moves (dfs_rec n (Suc idx)) s r c mv = Some (Inr (ok, s'))"
        by (auto split: sum.splits)
      show ?thesis by (rule place_moves_nine[OF _ pm]) (rule Suc.IH)
    qed
  qed
qed

lemma distinct_pairs:
  assumes "distinct ks" and "\<And>i. distinct (f i)"
  shows "distinct (concat (map (\<lambda>i. map (\<lambda>j. (i, j)) (f i)) ks))"
  using assms(1)
proof (induction ks)
  case Nil
  then show ?case by simp
next
  case (Cons k ks)
  have "distinct (map (\<lambda>j. (k, j)) (f k))" using assms(2) by (simp add: distinct_map inj_on_def)
  moreover have "set (map (\<lambda>j. (k, j)) (f k)) \<inter> set (concat (map (\<lambda>i. map (\<lambda>j. (i, j)) (f i)) ks)) = {}"
    using Cons.prems by auto
  ultimately show ?case using Cons by simp
qed

lemma distinct_grid_cells: "distinct (grid_cells g)"
  unfolding grid_cells_def by (rule distinct_pairs) simp_all

lemma grid_cells_update: "grid_cells (g[r := (g ! r)[c := d]]) = grid_cells g"
  unfolding grid_cells_def by (simp add: length_nth_update)

lemma empty_cells_place:
  assumes d: "d \<noteq> CHR ''.''"
  shows "empty_cells (g[r := (g ! r)[c := d]]) = filter (\<lambda>p. p \<noteq> (r, c)) (empty_cells g)"
proof -
  have "filter (\<lambda>(i, j). g[r := (g ! r)[c := d]] ! i ! j = CHR ''.'') (grid_cells g) =
        filter (\<lambda>p. p \<noteq> (r, c) \<and> (case p of (i, j) \<Rightarrow> g ! i ! j = CHR ''.'')) (grid_cells g)"
  proof (rule filter_cong[OF refl])
    fix p assume "p \<in> set (grid_cells g)"
    then obtain i j where p: "p = (i, j)" and ij: "i < length g" "j < length (g ! i)"
      by (auto simp: set_grid_cells)
    show "(case p of (i, j) \<Rightarrow> g[r := (g ! r)[c := d]] ! i ! j = CHR ''.'') =
          (p \<noteq> (r, c) \<and> (case p of (i, j) \<Rightarrow> g ! i ! j = CHR ''.''))"
      unfolding p using ij d by (auto simp: nth_nth_update)
  qed
  then show ?thesis unfolding empty_cells_def grid_cells_update by (simp add: conj_commute)
qed

lemma place_fills_one:
  assumes e: "grid_get (board s) r c = Inr (CHR ''.'')" and d: "d \<noteq> CHR ''.''"
    and p: "place s r c d = Inr s1"
  shows "Suc (length (empty_cells (board s1))) = length (empty_cells (board s))"
proof -
  let ?g = "board s"
  from e have r: "r < length ?g" and c: "c < length (?g ! r)" and dot: "?g ! r ! c = CHR ''.''"
    by (auto simp: grid_get_def split: if_splits)
  from p have b1: "board s1 = ?g[r := (?g ! r)[c := d]]"
    by (auto simp: place_def bind_e_Inr grid_set_def split: if_splits)
  have mem: "(r, c) \<in> set (empty_cells ?g)" using r c dot by (simp add: empty_cells_mem)
  have dist: "distinct (empty_cells ?g)" unfolding empty_cells_def by (simp add: distinct_grid_cells)
  have "filter (\<lambda>p. p \<noteq> (r, c)) (empty_cells ?g) = remove1 (r, c) (empty_cells ?g)"
    using dist by (simp add: distinct_remove1_removeAll removeAll_filter_not_eq eq_commute)
  then have "length (empty_cells (board s1)) = length (empty_cells ?g) - 1"
    using mem by (simp add: b1 empty_cells_place[OF d] length_remove1)
  moreover have "0 < length (empty_cells ?g)" using mem by (cases "empty_cells ?g") auto
  ultimately show ?thesis by simp
qed

lemma solveSudoku_total:
  assumes "length (empty_cells g) < n"
  shows "solveSudoku n g \<noteq> None"
proof (cases "find_empties (init_state g)")
  case (Inl e)
  then show ?thesis by (simp add: solveSudoku_def)
next
  case (Inr s)
  from find_empties_spec[OF Inr] assms have "length (empties s) - 0 < n" by simp
  from dfs_rec_total[OF this] Inr show ?thesis by (simp add: solveSudoku_def)
qed

lemma is_match_sym: "is_match b a (Some c) = is_match b c (Some a)"
  by (auto simp: is_match_def)

lemma is_match_pair:
  "is_match b a (Some c) \<Longrightarrow> is_match b k (Some k2) \<Longrightarrow> (a = k \<and> c = k2) \<or> (a = k2 \<and> c = k)"
  by (auto simp: is_match_def)

lemma first_bridge_sym: "first_bridge p a c = first_bridge p c a"
  unfolding first_bridge_def by (rule find_cong) (simp_all add: is_match_sym)

lemma wires_between_sym: "wires_between p a c = wires_between p c a"
  by (simp add: wires_between_def first_bridge_sym[of p a c])

lemma find_SomeD: "find P xs = Some x \<Longrightarrow> x \<in> set xs \<and> P x"
  by (induction xs) (auto split: if_splits)

lemma first_bridge_SomeD:
  "first_bridge p a c = Some e \<Longrightarrow> e \<in> set (edges p) \<and> is_match (bridges p ! e) a (Some c)"
  unfolding first_bridge_def by (rule find_SomeD)

lemma find_bridge_find:
  assumes "\<forall>e \<in> set es. e < length (bridges p)"
  shows "find_bridge p a c es = Inr (find (\<lambda>e. is_match (bridges p ! e) a (Some c)) es)"
  using assms by (induction es) (simp_all add: get_bridge_def bind_e_def)

lemma find_bridge_first:
  "bridges_ok p \<Longrightarrow> find_bridge p a c (edges p) = Inr (first_bridge p a c)"
  unfolding first_bridge_def by (rule find_bridge_find) (simp add: bridges_ok_def)

lemma pick_bridge_find:
  assumes "\<forall>e \<in> set es. e < length (bridges p)"
    and "find (\<lambda>e. is_match (bridges p ! e) a (Some c)) es = Some x"
  shows "pick_bridge p a (Some c) cur es = Inr (Some x)"
  using assms by (induction es arbitrary: cur) (auto simp: get_bridge_def bind_e_def split: if_splits)

lemma scan_edges_True:
  assumes "\<forall>e \<in> set es. e < length (bridges p)"
    and "scan_edges p a c es = Inr r" "r \<noteq> Some False"
    and "find (\<lambda>e. is_match (bridges p ! e) a (Some c)) es = Some x"
  shows "wires (bridges p ! x) \<noteq> 3"
  using assms
proof (induction es)
  case Nil
  then show ?case by simp
next
  case (Cons e es)
  from Cons.prems(1) have e: "get_bridge p e = Inr (bridges p ! e)" by (simp add: get_bridge_def)
  show ?case
  proof (cases "is_match (bridges p ! e) a (Some c)")
    case True
    with Cons.prems(4) have x: "x = e" by simp
    show ?thesis
    proof
      assume "wires (bridges p ! x) = 3"
      with Cons.prems(2) e True x have "r = Some False" by (simp add: bind_e_def)
      with Cons.prems(3) show False by simp
    qed
  next
    case False
    with Cons.prems e have "scan_edges p a c es = Inr r"
      "find (\<lambda>e. is_match (bridges p ! e) a (Some c)) es = Some x" by (simp_all add: bind_e_def)
    with Cons.IH Cons.prems(1,3) show ?thesis by simp
  qed
qed

lemma can_build_bridge_True:
  assumes ok: "bridges_ok p" and can: "can_build_bridge p k d = Inr True"
  shows "\<exists>nd k2. get_node p k = Inr nd \<and> get_neighbour nd d = Inr (Some k2) \<and> wires_between p k k2 < 3"
proof -
  from can obtain nd nb where nd: "get_node p k = Inr nd" and nb: "get_neighbour nd d = Inr nb"
    and rest: "(case nb of None \<Rightarrow> Inr False
       | Some k2 \<Rightarrow>
           bind_e (scan_edges p k k2 (edges p)) (\<lambda>early.
             case early of
               Some r \<Rightarrow> Inr r
             | None \<Rightarrow>
                 bind_e (mark_islands (replicate (nrows p) (replicate (ncols p) 0)) (nodes p)) (\<lambda>soln.
                 bind_e (mark_bridges p (soln, k, k2) (edges p)) (\<lambda>st.
                 bind_e (get_node p (fst (snd st))) (\<lambda>n1.
                 bind_e (get_node p (snd (snd st))) (\<lambda>n2.
                 bind_e (any_marked (fst st) (span n1 d (dist_of n1 n2))) (\<lambda>crossed.
                   Inr (\<not> crossed)))))))) = Inr True"
    unfolding can_build_bridge_def bind_e_Inr by blast
  from rest obtain k2 where k2: "nb = Some k2" by (cases nb) auto
  from rest k2 obtain early where sc: "scan_edges p k k2 (edges p) = Inr early"
    and after: "(case early of Some r \<Rightarrow> Inr r
             | None \<Rightarrow>
                 bind_e (mark_islands (replicate (nrows p) (replicate (ncols p) 0)) (nodes p)) (\<lambda>soln.
                 bind_e (mark_bridges p (soln, k, k2) (edges p)) (\<lambda>st.
                 bind_e (get_node p (fst (snd st))) (\<lambda>n1.
                 bind_e (get_node p (snd (snd st))) (\<lambda>n2.
                 bind_e (any_marked (fst st) (span n1 d (dist_of n1 n2))) (\<lambda>crossed.
                   Inr (\<not> crossed))))))) = Inr True"
    by (simp add: bind_e_Inr) blast
  have nf: "early \<noteq> Some False" using after by (cases early) auto
  have refs: "\<forall>e \<in> set (edges p). e < length (bridges p)" using ok by (simp add: bridges_ok_def)
  have "wires_between p k k2 < 3"
  proof (cases "first_bridge p k k2")
    case None
    then show ?thesis by (simp add: wires_between_def)
  next
    case (Some e)
    from scan_edges_True[OF refs sc nf Some[unfolded first_bridge_def]] have "wires (bridges p ! e) \<noteq> 3" .
    moreover from first_bridge_SomeD[OF Some] ok have "wires (bridges p ! e) \<le> 3" by (simp add: bridges_ok_def)
    ultimately show ?thesis using Some by (simp add: wires_between_def)
  qed
  with nd nb k2 show ?thesis by blast
qed

lemma find_append_None:
  "find P (xs @ ys) = (case find P xs of None \<Rightarrow> find P ys | Some x \<Rightarrow> Some x)"
  by (induction xs) simp_all

lemma find_None_iff2: "find P xs = None \<longleftrightarrow> (\<forall>x \<in> set xs. \<not> P x)"
  by (induction xs) simp_all

lemma wb_found:
  assumes fb: "first_bridge p k k2 = Some e"
    and e: "e < length (bridges p)"
    and br: "bridges p' = (bridges p)[e := b']"
    and i1: "island1 b' = island1 (bridges p ! e)" and i2: "island2 b' = island2 (bridges p ! e)"
    and w: "wires b' = wires (bridges p ! e) + dl"
    and ed: "edges p' = edges p @ xs" "set xs \<subseteq> {e}"
  shows "wires_between p' a c =
           wires_between p a c + (if (a = k \<and> c = k2) \<or> (a = k2 \<and> c = k) then dl else 0)"
proof -
  define q where "q \<longleftrightarrow> (a = k \<and> c = k2) \<or> (a = k2 \<and> c = k)"
  from first_bridge_SomeD[OF fb] have ein: "e \<in> set (edges p)" and em: "is_match (bridges p ! e) k (Some k2)"
    by simp_all
  have same: "is_match (bridges p' ! x) a (Some c) = is_match (bridges p ! x) a (Some c)" for x
    using e i1 i2 by (cases "x = e") (simp_all add: br is_match_def)
  have fp: "first_bridge p' a c = first_bridge p a c"
  proof (cases "first_bridge p a c")
    case None
    then have "\<not> is_match (bridges p ! e) a (Some c)"
      using ein by (simp add: first_bridge_def find_None_iff2)
    then have "find (\<lambda>e. is_match (bridges p ! e) a (Some c)) xs = None"
      using ed(2) by (auto simp: find_None_iff2)
    with None show ?thesis by (simp add: first_bridge_def ed(1) same find_append_None)
  next
    case (Some y)
    then show ?thesis by (simp add: first_bridge_def ed(1) same find_append_None)
  qed
  have "wires_between p' a c = wires_between p a c + (if q then dl else 0)"
  proof (cases q)
    case True
    then have "first_bridge p a c = Some e" using fb first_bridge_sym[of p k k2] by (auto simp: q_def)
    with True fp e w show ?thesis by (simp add: wires_between_def br)
  next
    case False
    show ?thesis
    proof (cases "first_bridge p a c")
      case None
      with fp False show ?thesis by (simp add: wires_between_def)
    next
      case (Some y)
      from first_bridge_SomeD[OF Some] have "is_match (bridges p ! y) a (Some c)" by simp
      with is_match_pair[OF _ em] False have "y \<noteq> e" by (auto simp: q_def)
      with Some fp False show ?thesis by (simp add: wires_between_def br)
    qed
  qed
  then show ?thesis by (simp add: q_def)
qed

lemma wb_new:
  assumes fb: "first_bridge p k k2 = None"
    and refs: "\<forall>e \<in> set (edges p). e < length (bridges p)"
    and br: "bridges p' = bridges p @ [b']"
    and i1: "island1 b' = k" and i2: "island2 b' = k2"
    and w: "wires b' = 1"
    and ed: "edges p' = edges p @ [length (bridges p)]"
  shows "wires_between p' a c =
           wires_between p a c + (if (a = k \<and> c = k2) \<or> (a = k2 \<and> c = k) then 1 else 0)"
proof -
  define q where "q \<longleftrightarrow> (a = k \<and> c = k2) \<or> (a = k2 \<and> c = k)"
  have old: "find (\<lambda>e. is_match (bridges p' ! e) a (Some c)) (edges p) = first_bridge p a c"
    unfolding first_bridge_def using refs by (intro find_cong) (simp_all add: br nth_append)
  have new: "is_match (bridges p' ! length (bridges p)) a (Some c) \<longleftrightarrow> q"
    using i1 i2 by (auto simp: br is_match_def q_def)
  have fp0: "first_bridge p' a c =
      (case first_bridge p a c of
         None \<Rightarrow> find (\<lambda>e. is_match (bridges p' ! e) a (Some c)) [length (bridges p)]
       | Some x \<Rightarrow> Some x)"
    unfolding first_bridge_def[of p'] ed find_append_None old ..
  have "wires_between p' a c = wires_between p a c + (if q then 1 else 0)"
  proof (cases q)
    case True
    then have "first_bridge p a c = None" using fb first_bridge_sym[of p k k2] by (auto simp: q_def)
    with True fp0 new have "first_bridge p' a c = Some (length (bridges p))" by simp
    with True \<open>first_bridge p a c = None\<close> w show ?thesis by (simp add: wires_between_def br)
  next
    case False
    show ?thesis
    proof (cases "first_bridge p a c")
      case None
      with fp0 new False have "first_bridge p' a c = None" by simp
      with None False show ?thesis by (simp add: wires_between_def)
    next
      case (Some y)
      from first_bridge_SomeD[OF Some] refs have "y < length (bridges p)" by simp
      with Some fp0 False show ?thesis by (simp add: wires_between_def br nth_append)
    qed
  qed
  then show ?thesis by (simp add: q_def)
qed

lemma bump_fields:
  assumes "bump p k dl = Inr p1"
  shows "bridges p1 = bridges p \<and> edges p1 = edges p \<and>
         map neighbours (nodes p1) = map neighbours (nodes p)"
proof -
  from assms obtain n where n: "get_node p k = Inr n"
    and p1: "p1 = p\<lparr>nodes := (nodes p)[k := n\<lparr>curr_bridges := curr_bridges n + dl\<rparr>]\<rparr>"
    by (auto simp: bump_def bind_e_Inr)
  from n have "k < length (nodes p)" "n = nodes p ! k" by (auto simp: get_node_def split: if_splits)
  then have "map neighbours ((nodes p)[k := n\<lparr>curr_bridges := curr_bridges n + dl\<rparr>]) = map neighbours (nodes p)"
    by (simp add: map_update list_update_same_conv)
  with p1 show ?thesis by simp
qed

lemma bridges_ok_found:
  assumes ok: "bridges_ok p" and ein: "e \<in> set (edges p)"
    and br: "bridges p' = (bridges p)[e := b']"
    and w: "0 \<le> wires b'" "wires b' \<le> 3"
    and ed: "edges p' = edges p @ xs" "set xs \<subseteq> {e}"
  shows "bridges_ok p'"
  unfolding bridges_ok_def
proof
  fix x assume "x \<in> set (edges p')"
  with ed ein have x: "x \<in> set (edges p)" by auto
  with ok have lt: "x < length (bridges p)" and wx: "0 \<le> wires (bridges p ! x)" "wires (bridges p ! x) \<le> 3"
    by (simp_all add: bridges_ok_def)
  show "x < length (bridges p') \<and> 0 \<le> wires (bridges p' ! x) \<and> wires (bridges p' ! x) \<le> 3"
    using lt wx w by (cases "x = e") (simp_all add: br)
qed

lemma bridges_ok_new:
  assumes ok: "bridges_ok p"
    and br: "bridges p' = bridges p @ [b']"
    and w: "wires b' = 1"
    and ed: "edges p' = edges p @ [length (bridges p)]"
  shows "bridges_ok p'"
  unfolding bridges_ok_def
proof
  fix x assume "x \<in> set (edges p')"
  with ed consider "x \<in> set (edges p)" | "x = length (bridges p)" by auto
  then show "x < length (bridges p') \<and> 0 \<le> wires (bridges p' ! x) \<and> wires (bridges p' ! x) \<le> 3"
  proof cases
    case 1
    with ok have "x < length (bridges p)" "0 \<le> wires (bridges p ! x)" "wires (bridges p ! x) \<le> 3"
      by (simp_all add: bridges_ok_def)
    then show ?thesis by (simp add: br nth_append)
  next
    case 2
    then show ?thesis using w by (simp add: br)
  qed
qed

lemma add_wire_found:
  assumes ok: "bridges_ok p" and fb: "first_bridge p k k2 = Some e"
    and lt: "wires_between p k k2 < 3"
    and add: "add_wire p k k2 e (bridges p ! e) = Inr p'"
  shows "bridges_ok p' \<and> map neighbours (nodes p') = map neighbours (nodes p) \<and>
         (\<forall>a c. wires_between p' a c =
            wires_between p a c + (if (a = k \<and> c = k2) \<or> (a = k2 \<and> c = k) then 1 else 0))"
proof -
  define b where "b = bridges p ! e"
  from lt fb have w3: "wires b \<noteq> 3" by (simp add: wires_between_def b_def)
  from first_bridge_SomeD[OF fb] have ein: "e \<in> set (edges p)" by simp
  with ok have w0: "0 \<le> wires b" "wires b \<le> 3" and eq: "e < length (bridges p)"
    by (simp_all add: bridges_ok_def b_def)
  from add w3 obtain p1 p2 where p1: "bump p k 1 = Inr p1" and p2: "bump p1 k2 1 = Inr p2"
    and fin: "(let w = wires b + 1 in
          if w = 1 then
            (if nbridges p2 < MAX_BRIDGES then
               Inr (p2\<lparr>bridges := (bridges p2)
                         [e := b\<lparr>wires := w, symbol := (if horizontal b then CHR ''-'' else CHR ''|'')\<rparr>],
                       edges := edges p2 @ [e]\<rparr>)
             else Inl IndexError)
          else if w = 2 then
            Inr (p2\<lparr>bridges := (bridges p2)
                      [e := b\<lparr>wires := w, symbol := (if horizontal b then CHR ''='' else CHR 0x22)\<rparr>]\<rparr>)
          else if w = 3 then
            Inr (p2\<lparr>bridges := (bridges p2)
                      [e := b\<lparr>wires := w, symbol := (if horizontal b then CHR ''E'' else CHR ''#'')\<rparr>]\<rparr>)
          else Inr (p2\<lparr>bridges := (bridges p2)[e := b\<lparr>wires := w\<rparr>]\<rparr>)) = Inr p'"
    unfolding add_wire_def b_def[symmetric] by (simp add: bind_e_Inr split del: if_split) blast
  from bump_fields[OF p1] bump_fields[OF p2]
  have f2: "bridges p2 = bridges p" "edges p2 = edges p" "map neighbours (nodes p2) = map neighbours (nodes p)"
    by simp_all
  from fin obtain b' xs where p': "bridges p' = (bridges p)[e := b']"
    "island1 b' = island1 b" "island2 b' = island2 b" "wires b' = wires b + 1"
    "edges p' = edges p @ xs" "set xs \<subseteq> {e}" "nodes p' = nodes p2"
  proof (cases "wires b + 1 = 1")
    case True
    with fin have "bridges p' = (bridges p)[e := b\<lparr>wires := wires b + 1, symbol := (if horizontal b then CHR ''-'' else CHR ''|'')\<rparr>]"
      "edges p' = edges p @ [e]" "nodes p' = nodes p2"
      by (auto simp: Let_def f2 split: if_splits)
    then show ?thesis by (intro that[of "b\<lparr>wires := wires b + 1, symbol := (if horizontal b then CHR ''-'' else CHR ''|'')\<rparr>" "[e]"]) simp_all
  next
    case n1: False
    show ?thesis
    proof (cases "wires b + 1 = 2")
      case True
      with fin n1 have "bridges p' = (bridges p)[e := b\<lparr>wires := wires b + 1, symbol := (if horizontal b then CHR ''='' else CHR 0x22)\<rparr>]"
        "edges p' = edges p" "nodes p' = nodes p2"
        by (auto simp: Let_def f2 split: if_splits)
      then show ?thesis by (intro that[of "b\<lparr>wires := wires b + 1, symbol := (if horizontal b then CHR ''='' else CHR 0x22)\<rparr>" "[]"]) simp_all
    next
      case n2: False
      show ?thesis
      proof (cases "wires b + 1 = 3")
        case True
        with fin n1 n2 have "bridges p' = (bridges p)[e := b\<lparr>wires := wires b + 1, symbol := (if horizontal b then CHR ''E'' else CHR ''#'')\<rparr>]"
          "edges p' = edges p" "nodes p' = nodes p2"
          by (auto simp: Let_def f2 split: if_splits)
        then show ?thesis by (intro that[of "b\<lparr>wires := wires b + 1, symbol := (if horizontal b then CHR ''E'' else CHR ''#'')\<rparr>" "[]"]) simp_all
      next
        case n3: False
        with fin n1 n2 have "bridges p' = (bridges p)[e := b\<lparr>wires := wires b + 1\<rparr>]"
          "edges p' = edges p" "nodes p' = nodes p2"
          by (auto simp: Let_def f2 split: if_splits)
        then show ?thesis by (intro that[of "b\<lparr>wires := wires b + 1\<rparr>" "[]"]) simp_all
      qed
    qed
  qed
  have 1: "bridges_ok p'"
    by (rule bridges_ok_found[OF ok ein p'(1) _ _ p'(5,6)]) (use w0 w3 p'(4) in auto)
  have 2: "map neighbours (nodes p') = map neighbours (nodes p)" using p'(7) f2 by simp
  have 3: "wires_between p' a c =
          wires_between p a c + (if (a = k \<and> c = k2) \<or> (a = k2 \<and> c = k) then 1 else 0)" for a c
    by (rule wb_found[OF fb eq p'(1) _ _ _ p'(5,6)]) (simp_all add: b_def[symmetric] p'(2,3,4))
  from 1 2 3 show ?thesis by blast
qed

lemma add_wire_new:
  assumes ok: "bridges_ok p" and fb: "first_bridge p k k2 = None"
    and b: "b = \<lparr>island1 = k, island2 = k2, direction = d, symbol = CHR '' '', wires = 0, skip = False\<rparr>"
    and add: "add_wire (p\<lparr>bridges := bridges p @ [b]\<rparr>) k k2 (length (bridges p)) b = Inr p'"
  shows "bridges_ok p' \<and> map neighbours (nodes p') = map neighbours (nodes p) \<and>
         (\<forall>a c. wires_between p' a c =
            wires_between p a c + (if (a = k \<and> c = k2) \<or> (a = k2 \<and> c = k) then 1 else 0))"
proof -
  have refs: "\<forall>e \<in> set (edges p). e < length (bridges p)" using ok by (simp add: bridges_ok_def)
  let ?q = "p\<lparr>bridges := bridges p @ [b]\<rparr>"
  have w: "wires b = 0" by (simp add: b)
  from add w obtain p1 p2 where p1: "bump ?q k 1 = Inr p1" and p2: "bump p1 k2 1 = Inr p2"
    and fin: "(if nbridges p2 < MAX_BRIDGES then
               Inr (p2\<lparr>bridges := (bridges p2)
                         [length (bridges p) := b\<lparr>wires := 1, symbol := (if horizontal b then CHR ''-'' else CHR ''|'')\<rparr>],
                       edges := edges p2 @ [length (bridges p)]\<rparr>)
             else Inl IndexError) = Inr p'"
    unfolding add_wire_def by (simp add: bind_e_Inr Let_def split del: if_split) blast
  from bump_fields[OF p1] bump_fields[OF p2]
  have f2: "bridges p2 = bridges p @ [b]" "edges p2 = edges p" "map neighbours (nodes p2) = map neighbours (nodes p)"
    by simp_all
  from fin obtain sym where p': "bridges p' = bridges p @ [b\<lparr>wires := 1, symbol := sym\<rparr>]"
    "edges p' = edges p @ [length (bridges p)]" "nodes p' = nodes p2"
    by (auto simp: f2 split: if_splits)
  have 1: "bridges_ok p'" by (rule bridges_ok_new[OF ok p'(1) _ p'(2)]) simp
  have 2: "map neighbours (nodes p') = map neighbours (nodes p)" using p'(3) f2 by simp
  have 3: "wires_between p' a c =
          wires_between p a c + (if (a = k \<and> c = k2) \<or> (a = k2 \<and> c = k) then 1 else 0)" for a c
    by (rule wb_new[OF fb refs p'(1) _ _ _ p'(2)]) (simp_all add: b)
  from 1 2 3 show ?thesis by blast
qed

lemma add_bridge_effect:
  assumes ok: "bridges_ok p" and nd: "get_node p k = Inr nd"
    and nb: "get_neighbour nd d = Inr (Some k2)"
    and lt: "wires_between p k k2 < 3"
    and add: "add_bridge p k d = Inr p'"
  shows "bridges_ok p' \<and> map neighbours (nodes p') = map neighbours (nodes p) \<and>
         (\<forall>a c. wires_between p' a c =
            wires_between p a c + (if (a = k \<and> c = k2) \<or> (a = k2 \<and> c = k) then 1 else 0))"
proof (cases "first_bridge p k k2")
  case (Some e)
  from first_bridge_SomeD[OF Some] ok have "e < length (bridges p)" by (simp add: bridges_ok_def)
  with add have "add_wire p k k2 e (bridges p ! e) = Inr p'"
    by (simp add: add_bridge_def nd nb constructBridge_def find_bridge_first[OF ok] Some bind_e_def get_bridge_def)
  from add_wire_found[OF ok Some lt this] show ?thesis .
next
  case None
  define b where "b = \<lparr>island1 = k, island2 = k2, direction = d, symbol = CHR '' '', wires = 0, skip = False\<rparr>"
  from add have "add_wire (p\<lparr>bridges := bridges p @ [b]\<rparr>) k k2 (length (bridges p)) b = Inr p'"
    by (simp add: add_bridge_def nd nb constructBridge_def find_bridge_first[OF ok] None bind_e_def
        get_bridge_def b_def)
  from add_wire_new[OF ok None b_def this] show ?thesis .
qed

lemma wires_between_nonneg: "bridges_ok p \<Longrightarrow> 0 \<le> wires_between p a c"
  by (auto simp: wires_between_def bridges_ok_def dest: first_bridge_SomeD split: option.splits)

lemma wires_between_le: "bridges_ok p \<Longrightarrow> wires_between p a c \<le> 3"
  by (auto simp: wires_between_def bridges_ok_def dest: first_bridge_SomeD split: option.splits)

lemma remove_wire_found:
  assumes ok: "bridges_ok p" and fb: "first_bridge p k k2 = Some e"
    and ge: "1 \<le> wires_between p k k2"
    and rm: "remove_wire p k (Some k2) e (bridges p ! e) = Inr p'"
  shows "bridges_ok p' \<and> map neighbours (nodes p') = map neighbours (nodes p) \<and>
         (\<forall>a c. wires_between p' a c =
            wires_between p a c + (if (a = k \<and> c = k2) \<or> (a = k2 \<and> c = k) then - 1 else 0))"
proof -
  define b where "b = bridges p ! e"
  from ge fb have w1: "1 \<le> wires b" by (simp add: wires_between_def b_def)
  from first_bridge_SomeD[OF fb] have ein: "e \<in> set (edges p)" by simp
  with ok have w0: "wires b \<le> 3" and eq: "e < length (bridges p)"
    by (simp_all add: bridges_ok_def b_def)
  from w1 have wn: "wires b \<noteq> 0" by simp
  from rm wn obtain p1 p2 where p1: "bump p k (- 1) = Inr p1" and p2: "bump p1 k2 (- 1) = Inr p2"
    and fin: "p' = p2\<lparr>bridges := (bridges p2)
                          [e := b\<lparr>wires := wires b - 1,
                                 symbol :=
                                   (if wires b - 1 = 1 then (if horizontal b then CHR ''-'' else CHR ''|'')
                                    else if wires b - 1 = 2 then (if horizontal b then CHR ''='' else CHR 0x22)
                                    else CHR '' '')\<rparr>]\<rparr>"
    unfolding remove_wire_def b_def[symmetric] by (simp add: bind_e_Inr Let_def split del: if_split) blast
  from bump_fields[OF p1] bump_fields[OF p2]
  have f2: "bridges p2 = bridges p" "edges p2 = edges p" "map neighbours (nodes p2) = map neighbours (nodes p)"
    by simp_all
  define b' where "b' = b\<lparr>wires := wires b - 1,
                                 symbol :=
                                   (if wires b - 1 = 1 then (if horizontal b then CHR ''-'' else CHR ''|'')
                                    else if wires b - 1 = 2 then (if horizontal b then CHR ''='' else CHR 0x22)
                                    else CHR '' '')\<rparr>"
  have p': "bridges p' = (bridges p)[e := b']" "edges p' = edges p @ []" "set [] \<subseteq> {e}" "nodes p' = nodes p2"
    using fin f2 by (simp_all add: b'_def)
  have bf: "island1 b' = island1 b" "island2 b' = island2 b" "wires b' = wires b + (- 1)"
    by (simp_all add: b'_def)
  have 1: "bridges_ok p'"
    by (rule bridges_ok_found[OF ok ein p'(1) _ _ p'(2,3)]) (use w0 w1 bf(3) in auto)
  have 2: "map neighbours (nodes p') = map neighbours (nodes p)" using p'(4) f2 by simp
  have 3: "wires_between p' a c =
          wires_between p a c + (if (a = k \<and> c = k2) \<or> (a = k2 \<and> c = k) then - 1 else 0)" for a c
    by (rule wb_found[OF fb eq p'(1) _ _ _ p'(2,3)]) (simp_all add: b_def[symmetric] bf)
  from 1 2 3 show ?thesis by blast
qed

lemma remove_bridge_effect:
  assumes ok: "bridges_ok p" and nd: "get_node p k = Inr nd"
    and nb: "get_neighbour nd d = Inr (Some k2)"
    and ge: "1 \<le> wires_between p k k2"
    and rm: "remove_bridge p k d = Inr p'"
  shows "bridges_ok p' \<and> map neighbours (nodes p') = map neighbours (nodes p) \<and>
         (\<forall>a c. wires_between p' a c =
            wires_between p a c + (if (a = k \<and> c = k2) \<or> (a = k2 \<and> c = k) then - 1 else 0))"
proof -
  from ge obtain e where fb: "first_bridge p k k2 = Some e"
    by (cases "first_bridge p k k2") (auto simp: wires_between_def)
  have refs: "\<forall>e \<in> set (edges p). e < length (bridges p)" using ok by (simp add: bridges_ok_def)
  from pick_bridge_find[OF refs fb[unfolded first_bridge_def], of None]
  have pk: "pick_bridge p k (Some k2) None (edges p) = Inr (Some e)" .
  from first_bridge_SomeD[OF fb] refs have "e < length (bridges p)" by simp
  with rm have "remove_wire p k (Some k2) e (bridges p ! e) = Inr p'"
    by (simp add: remove_bridge_def nd nb pk bind_e_def get_bridge_def)
  from remove_wire_found[OF ok fb ge this] show ?thesis .
qed

lemma same_neighbours_node:
  assumes "map neighbours (nodes p') = map neighbours (nodes p)" "get_node p k = Inr nd"
  shows "\<exists>nd'. get_node p' k = Inr nd' \<and> get_neighbour nd' d = get_neighbour nd d"
proof -
  from assms(2) have k: "k < length (nodes p)" and nd: "nd = nodes p ! k"
    by (auto simp: get_node_def split: if_splits)
  from assms(1) have len: "length (nodes p') = length (nodes p)" by (metis length_map)
  from assms(1) k len have "neighbours (nodes p' ! k) = neighbours (nodes p ! k)"
    by (metis nth_map)
  with k len nd show ?thesis by (simp add: get_node_def get_neighbour_def)
qed

lemma same_wires_refl: "same_wires p p"
  by (simp add: same_wires_def)

lemma same_wires_trans: "same_wires p q \<Longrightarrow> same_wires q r \<Longrightarrow> same_wires p r"
  by (simp add: same_wires_def)

lemma try_dirs_frame:
  assumes rec: "\<And>p idx p'. bridges_ok p \<Longrightarrow> rec p idx = Some (Inr (False, p')) \<Longrightarrow>
                  bridges_ok p' \<and> same_wires p p'"
  shows "bridges_ok p \<Longrightarrow> try_dirs rec p idx ds = Some (Inr (False, p')) \<Longrightarrow>
         bridges_ok p' \<and> same_wires p p'"
proof (induction ds arbitrary: p)
  case Nil
  then show ?case by (simp add: same_wires_refl)
next
  case (Cons d ds)
  from Cons.prems(2) obtain can where can: "can_build_bridge p idx d = Inr can"
    by (auto split: sum.splits)
  show ?case
  proof (cases can)
    case False
    with Cons.prems(2) can have "try_dirs rec p idx ds = Some (Inr (False, p'))" by simp
    from Cons.IH[OF Cons.prems(1) this] show ?thesis .
  next
    case True
    from can True have canT: "can_build_bridge p idx d = Inr True" by simp
    from can_build_bridge_True[OF Cons.prems(1) canT] obtain nd k2 where
      nd: "get_node p idx = Inr nd" and nb: "get_neighbour nd d = Inr (Some k2)"
      and lt: "wires_between p idx k2 < 3" by blast
    from Cons.prems(2) can True obtain p1 where add: "add_bridge p idx d = Inr p1"
      by (auto split: sum.splits)
    from add_bridge_effect[OF Cons.prems(1) nd nb lt add]
    have ok1: "bridges_ok p1" and nb1: "map neighbours (nodes p1) = map neighbours (nodes p)"
      and wb1: "\<And>a c. wires_between p1 a c =
            wires_between p a c + (if (a = idx \<and> c = k2) \<or> (a = k2 \<and> c = idx) then 1 else 0)"
      by blast+
    from Cons.prems(2) can True add have ns: "\<not> check_solved p1" by (auto split: if_splits)
    from Cons.prems(2) can True add ns obtain idx' where
      idx': "bind_e (get_node p1 idx) (\<lambda>nd. bind_e (get_neighbour nd d) (findBridge p1 idx)) = Inr idx'"
      by (auto split: sum.splits)
    from Cons.prems(2) can True add ns idx' obtain r p2 where r2: "rec p1 idx' = Some (Inr (r, p2))"
      by (auto split: option.splits sum.splits)
    from Cons.prems(2) can True add ns idx' r2 have nr: "\<not> r" by (auto split: if_splits)
    from r2 nr have r2': "rec p1 idx' = Some (Inr (False, p2))" by simp
    from rec[OF ok1 r2'] have ok2: "bridges_ok p2" and sw2: "same_wires p1 p2" by simp_all
    from Cons.prems(2) can True add ns idx' r2 nr obtain p3 where rm: "remove_bridge p2 idx d = Inr p3"
      and rest: "try_dirs rec p3 idx ds = Some (Inr (False, p'))"
      by (auto split: sum.splits)
    from sw2 nb1 have nb2: "map neighbours (nodes p2) = map neighbours (nodes p)"
      and wb2: "\<And>a c. wires_between p2 a c = wires_between p1 a c" by (simp_all add: same_wires_def)
    from same_neighbours_node[OF nb2 nd, of d] nb obtain nd2 where
      nd2: "get_node p2 idx = Inr nd2" and nbr2: "get_neighbour nd2 d = Inr (Some k2)" by auto
    have ge: "1 \<le> wires_between p2 idx k2"
      using wb2[of idx k2] wb1[of idx k2] wires_between_nonneg[OF Cons.prems(1), of idx k2] by simp
    from remove_bridge_effect[OF ok2 nd2 nbr2 ge rm]
    have ok3: "bridges_ok p3" and nb3: "map neighbours (nodes p3) = map neighbours (nodes p2)"
      and wb3: "\<And>a c. wires_between p3 a c =
            wires_between p2 a c + (if (a = idx \<and> c = k2) \<or> (a = k2 \<and> c = idx) then - 1 else 0)"
      by blast+
    have sw3: "same_wires p p3"
      unfolding same_wires_def using nb3 nb2 wb3 wb2 wb1 by simp
    from Cons.IH[OF ok3 rest] have "bridges_ok p'" "same_wires p3 p'" by simp_all
    with sw3 show ?thesis by (blast intro: same_wires_trans)
  qed
qed

lemma solve_map_frame:
  "bridges_ok p \<Longrightarrow> solve_map n p idx = Some (Inr (False, p')) \<Longrightarrow> bridges_ok p' \<and> same_wires p p'"
proof (induction n arbitrary: p idx p')
  case 0
  then show ?case by simp
next
  case (Suc n)
  show ?case
  proof (cases "idx = nislands p")
    case True
    with Suc.prems show ?thesis by (auto simp: same_wires_refl)
  next
    case False
    with Suc.prems(2) have "try_dirs (solve_map n) p idx [0..<DIRECTIONS] = Some (Inr (False, p'))"
      by (auto split: sum.splits)
    moreover have "\<And>p idx p'. bridges_ok p \<Longrightarrow> solve_map n p idx = Some (Inr (False, p')) \<Longrightarrow>
                  bridges_ok p' \<and> same_wires p p'"
      by (rule Suc.IH)
    ultimately show ?thesis using Suc.prems(1) by (rule try_dirs_frame[rotated 2])
  qed
qed

lemma slots_of_mem:
  "(k, k2) \<in> set (slots_of nbs) \<longleftrightarrow> k < length nbs \<and> Some k2 \<in> set (nbs ! k)"
  unfolding slots_of_def by (auto split: option.splits)

lemma slot_of_neighbour:
  assumes nd: "get_node p k = Inr nd" and nb: "get_neighbour nd d = Inr (Some k2)"
  shows "(k, k2) \<in> set (slots p)"
proof -
  from nd have k: "k < length (nodes p)" and n: "nd = nodes p ! k"
    by (auto simp: get_node_def split: if_splits)
  from nb have "d < length (neighbours nd)" "neighbours nd ! d = Some k2"
    by (auto simp: get_neighbour_def split: if_splits)
  then have "Some k2 \<in> set (neighbours nd)" by (metis nth_mem)
  with k n show ?thesis unfolding slots_def slots_of_mem by simp
qed

lemma sum_list_strict:
  fixes f g :: "'a \<Rightarrow> nat"
  assumes "\<forall>x \<in> set xs. f x \<le> g x" and "x \<in> set xs" and "f x < g x"
  shows "sum_list (map f xs) < sum_list (map g xs)"
  using assms
proof (induction xs)
  case Nil
  then show ?case by simp
next
  case (Cons y ys)
  have le: "sum_list (map f ys) \<le> sum_list (map g ys)"
    using Cons.prems(1) by (intro sum_list_mono) simp
  show ?case
  proof (cases "x = y")
    case True
    with Cons.prems(3) le show ?thesis by simp
  next
    case False
    with Cons.prems have "x \<in> set ys" by simp
    with Cons.IH Cons.prems have "sum_list (map f ys) < sum_list (map g ys)" by simp
    moreover from Cons.prems(1) have "f y \<le> g y" by simp
    ultimately show ?thesis by simp
  qed
qed

lemma room_same:
  assumes "same_wires p p'"
  shows "room p' = room p"
  using assms by (simp add: room_def slots_def same_wires_def)

lemma room_less:
  assumes nbs: "map neighbours (nodes p') = map neighbours (nodes p)"
    and wb: "\<And>a c. wires_between p' a c =
            wires_between p a c + (if (a = k \<and> c = k2) \<or> (a = k2 \<and> c = k) then 1 else 0)"
    and slot: "(k, k2) \<in> set (slots p)"
    and lt: "wires_between p k k2 < 3"
  shows "room p' < room p"
proof -
  have sl: "slots p' = slots p" using nbs by (simp add: slots_def)
  let ?f = "\<lambda>(a, c). nat (3 - wires_between p' a c)"
  let ?g = "\<lambda>(a, c). nat (3 - wires_between p a c)"
  have "\<forall>x \<in> set (slots p). ?f x \<le> ?g x" using wb by auto
  moreover have "?f (k, k2) < ?g (k, k2)" using wb[of k k2] lt by simp
  ultimately have "sum_list (map ?f (slots p)) < sum_list (map ?g (slots p))"
    using slot by (intro sum_list_strict[of "slots p" ?f ?g "(k, k2)"])
  then show ?thesis unfolding room_def sl .
qed

lemma try_dirs_total:
  assumes rec_total: "\<And>p idx. bridges_ok p \<Longrightarrow> room p < m \<Longrightarrow> rec p idx \<noteq> None"
    and rec_frame: "\<And>p idx p'. bridges_ok p \<Longrightarrow> rec p idx = Some (Inr (False, p')) \<Longrightarrow>
                  bridges_ok p' \<and> same_wires p p'"
  shows "bridges_ok p \<Longrightarrow> room p \<le> m \<Longrightarrow> try_dirs rec p idx ds \<noteq> None"
proof (induction ds arbitrary: p)
  case Nil
  then show ?case by simp
next
  case (Cons d ds)
  show ?case
  proof (cases "can_build_bridge p idx d")
    case (Inl e)
    then show ?thesis by simp
  next
    case (Inr can)
    show ?thesis
    proof (cases can)
      case False
      with Inr Cons.IH[OF Cons.prems] show ?thesis by simp
    next
      case True
      with Inr have canT: "can_build_bridge p idx d = Inr True" by simp
      from can_build_bridge_True[OF Cons.prems(1) canT] obtain nd k2 where
        nd: "get_node p idx = Inr nd" and nb: "get_neighbour nd d = Inr (Some k2)"
        and lt: "wires_between p idx k2 < 3" by blast
      show ?thesis
      proof (cases "add_bridge p idx d")
        case (Inl e)
        with canT show ?thesis by simp
      next
        case add: (Inr p1)
        from add_bridge_effect[OF Cons.prems(1) nd nb lt add]
        have ok1: "bridges_ok p1" and nb1: "map neighbours (nodes p1) = map neighbours (nodes p)"
          and wb1: "\<And>a c. wires_between p1 a c =
                wires_between p a c + (if (a = idx \<and> c = k2) \<or> (a = k2 \<and> c = idx) then 1 else 0)"
          by blast+
        from room_less[OF nb1 wb1 slot_of_neighbour[OF nd nb] lt] Cons.prems(2)
        have r1: "room p1 < m" by simp
        show ?thesis
        proof (cases "check_solved p1")
          case True
          with canT add show ?thesis by simp
        next
          case ns: False
          show ?thesis
          proof (cases "bind_e (get_node p1 idx) (\<lambda>nd. bind_e (get_neighbour nd d) (findBridge p1 idx))")
            case (Inl e)
            with canT add ns show ?thesis by simp
          next
            case idx': (Inr idx')
            from rec_total[OF ok1 r1, of idx'] obtain res where res: "rec p1 idx' = Some res" by auto
            show ?thesis
            proof (cases res)
              case (Inl e)
              with canT add ns idx' res show ?thesis by simp
            next
              case (Inr q)
              obtain r p2 where q: "q = (r, p2)" by (cases q)
              show ?thesis
              proof (cases r)
                case True
                with canT add ns idx' res Inr q show ?thesis by simp
              next
                case False
                with res Inr q have r2: "rec p1 idx' = Some (Inr (False, p2))" by simp
                from rec_frame[OF ok1 r2] have ok2: "bridges_ok p2" and sw2: "same_wires p1 p2" by simp_all
                show ?thesis
                proof (cases "remove_bridge p2 idx d")
                  case (Inl e)
                  with canT add ns idx' r2 show ?thesis by simp
                next
                  case rm: (Inr p3)
                  from sw2 nb1 have nb2: "map neighbours (nodes p2) = map neighbours (nodes p)"
                    and wb2: "\<And>a c. wires_between p2 a c = wires_between p1 a c"
                    by (simp_all add: same_wires_def)
                  from same_neighbours_node[OF nb2 nd, of d] nb obtain nd2 where
                    nd2: "get_node p2 idx = Inr nd2" and nbr2: "get_neighbour nd2 d = Inr (Some k2)" by auto
                  have ge: "1 \<le> wires_between p2 idx k2"
                    using wb2[of idx k2] wb1[of idx k2] wires_between_nonneg[OF Cons.prems(1), of idx k2]
                    by simp
                  from remove_bridge_effect[OF ok2 nd2 nbr2 ge rm]
                  have ok3: "bridges_ok p3" and nb3: "map neighbours (nodes p3) = map neighbours (nodes p2)"
                    and wb3: "\<And>a c. wires_between p3 a c =
                          wires_between p2 a c + (if (a = idx \<and> c = k2) \<or> (a = k2 \<and> c = idx) then - 1 else 0)"
                    by blast+
                  have sw3: "same_wires p p3"
                    unfolding same_wires_def using nb3 nb2 wb3 wb2 wb1 by simp
                  from room_same[OF sw3] Cons.prems(2) have "room p3 \<le> m" by simp
                  from Cons.IH[OF ok3 this] canT add ns idx' r2 rm show ?thesis by simp
                qed
              qed
            qed
          qed
        qed
      qed
    qed
  qed
qed

lemma solve_map_total: "bridges_ok p \<Longrightarrow> room p < n \<Longrightarrow> solve_map n p idx \<noteq> None"
proof (induction n arbitrary: p idx)
  case 0
  then show ?case by simp
next
  case (Suc n)
  show ?case
  proof (cases "idx = nislands p")
    case True
    then show ?thesis by simp
  next
    case False
    show ?thesis
    proof (cases "get_node p idx")
      case (Inl e)
      with False show ?thesis by simp
    next
      case (Inr nd)
      have "try_dirs (solve_map n) p idx [0..<DIRECTIONS] \<noteq> None"
      proof (rule try_dirs_total[where m = n])
        show "\<And>p idx. bridges_ok p \<Longrightarrow> room p < n \<Longrightarrow> solve_map n p idx \<noteq> None" by (rule Suc.IH)
        show "\<And>p idx p'. bridges_ok p \<Longrightarrow> solve_map n p idx = Some (Inr (False, p')) \<Longrightarrow>
                  bridges_ok p' \<and> same_wires p p'" by (rule solve_map_frame)
        show "bridges_ok p" by (rule Suc.prems(1))
        show "room p \<le> n" using Suc.prems(2) by simp
      qed
      with False Inr show ?thesis by simp
    qed
  qed
qed

lemma sum_list_map_update:
  fixes f :: "'a \<Rightarrow> int"
  shows "k < length xs \<Longrightarrow> sum_list (map f (xs[k := y])) = sum_list (map f xs) - f (xs ! k) + f y"
proof (induction xs arbitrary: k)
  case Nil
  then show ?case by simp
next
  case (Cons x xs)
  then show ?case by (cases k) simp_all
qed

lemma bump_need:
  assumes "bump p k dl = Inr p1"
  shows "need p1 = need p - dl"
proof -
  from assms obtain n where n: "get_node p k = Inr n"
    and p1: "p1 = p\<lparr>nodes := (nodes p)[k := n\<lparr>curr_bridges := curr_bridges n + dl\<rparr>]\<rparr>"
    by (auto simp: bump_def bind_e_Inr)
  from n have k: "k < length (nodes p)" and nk: "n = nodes p ! k"
    by (auto simp: get_node_def split: if_splits)
  show ?thesis unfolding need_def p1 using k nk by (simp add: sum_list_map_update)
qed

lemma add_wire_need:
  assumes add: "add_wire p k k2 e b = Inr p'" and w3: "wires b \<noteq> 3"
  shows "need p' = need p - 2"
proof -
  from add w3 obtain p1 p2 where p1: "bump p k 1 = Inr p1" and p2: "bump p1 k2 1 = Inr p2"
    and n: "nodes p' = nodes p2"
    unfolding add_wire_def by (auto simp: bind_e_Inr Let_def split: if_splits)
  have "need p' = need p2" using n by (simp add: need_def)
  with bump_need[OF p1] bump_need[OF p2] show ?thesis by simp
qed

lemma add_bridge_need:
  assumes ok: "bridges_ok p" and can: "can_build_bridge p k d = Inr True"
    and add: "add_bridge p k d = Inr p'"
  shows "need p' = need p - 2"
proof -
  from can_build_bridge_True[OF ok can] obtain nd k2 where
    nd: "get_node p k = Inr nd" and nb: "get_neighbour nd d = Inr (Some k2)"
    and lt: "wires_between p k k2 < 3" by blast
  from add nd nb have add2: "bind_e (constructBridge p k k2 d) (\<lambda>made.
           bind_e (get_bridge (fst made) (snd made)) (\<lambda>b.
             add_wire (fst made) k k2 (snd made) b)) = Inr p'"
    by (simp add: add_bridge_def bind_e_def)
  show ?thesis
  proof (cases "first_bridge p k k2")
    case None
    define b where "b = \<lparr>island1 = k, island2 = k2, direction = d, symbol = CHR '' '', wires = 0, skip = False\<rparr>"
    from add2 None have "add_wire (p\<lparr>bridges := bridges p @ [b]\<rparr>) k k2 (length (bridges p)) b = Inr p'"
      by (simp add: constructBridge_def find_bridge_first[OF ok] bind_e_def get_bridge_def b_def)
    from add_wire_need[OF this] show ?thesis by (simp add: b_def need_def)
  next
    case (Some e)
    from first_bridge_SomeD[OF Some] ok have e: "e < length (bridges p)" by (simp add: bridges_ok_def)
    from add2 Some e have "add_wire p k k2 e (bridges p ! e) = Inr p'"
      by (simp add: constructBridge_def find_bridge_first[OF ok] bind_e_def get_bridge_def)
    moreover from lt Some have "wires (bridges p ! e) \<noteq> 3" by (simp add: wires_between_def)
    ultimately show ?thesis by (rule add_wire_need)
  qed
qed

lemma add_bridge_room:
  assumes ok: "bridges_ok p" and can: "can_build_bridge p k d = Inr True"
    and add: "add_bridge p k d = Inr p'"
  shows "bridges_ok p' \<and> room p' < room p"
proof -
  from can_build_bridge_True[OF ok can] obtain nd k2 where
    nd: "get_node p k = Inr nd" and nb: "get_neighbour nd d = Inr (Some k2)"
    and lt: "wires_between p k k2 < 3" by blast
  from add_bridge_effect[OF ok nd nb lt add]
  have ok1: "bridges_ok p'" and nb1: "map neighbours (nodes p') = map neighbours (nodes p)"
    and wb1: "\<And>a c. wires_between p' a c =
          wires_between p a c + (if (a = k \<and> c = k2) \<or> (a = k2 \<and> c = k) then 1 else 0)"
    by blast+
  from room_less[OF nb1 wb1 slot_of_neighbour[OF nd nb] lt] ok1 show ?thesis by simp
qed

lemma sum_list_le_const:
  fixes f :: "'a \<Rightarrow> nat"
  assumes "\<forall>x \<in> set xs. f x \<le> c"
  shows "sum_list (map f xs) \<le> c * length xs"
  using assms by (induction xs) auto

lemma room_bound:
  assumes ok: "bridges_ok p"
  shows "room p \<le> 3 * length (slots p)"
  unfolding room_def
proof (rule sum_list_le_const)
  show "\<forall>x \<in> set (slots p). (case x of (a, c) \<Rightarrow> nat (3 - wires_between p a c)) \<le> 3"
  proof
    fix x assume "x \<in> set (slots p)"
    obtain a c where x: "x = (a, c)" by (cases x)
    from wires_between_nonneg[OF ok, of a c] have "nat (3 - wires_between p a c) \<le> 3" by arith
    then show "(case x of (a, c) \<Rightarrow> nat (3 - wires_between p a c)) \<le> 3" by (simp add: x)
  qed
qed

section \<open>The claims\<close>

text \<open>
  C1 (no mutation on failure). When \<open>solve\<close> of \<open>dfs.py\<close>, \<open>dfs\<close> of
  \<open>bfs-memory-british.py\<close> or \<open>dfs_rec\<close> of \<open>solver.py\<close> returns \<open>False\<close>, the
  position it leaves is the position it was called on (and so has the same encoding):
  board and move list for the peg boards, whose empty holes hold \<open>EMPTY\<close>; board, the
  three families of sets and the list of empties for Sudoku.
\<close>

theorem no_mutation_on_failure:
  "(holes_empty (fst p) \<longrightarrow> solve n p = Some (Inr (False, p')) \<longrightarrow>
      p' = p \<and> encode_board (fst p') = encode_board (fst p)) \<and>
   (holes_empty (fst q) \<longrightarrow> dfs k V q = Some (Inr (False, V', q')) \<longrightarrow>
      q' = q \<and> encode_board (fst q') = encode_board (fst q)) \<and>
   (dfs_rec j idx s = Some (Inr (False, s')) \<longrightarrow> s' = s)"
  using solve_fail[of p n p'] dfs_fail[of q k V V' q'] dfs_rec_fail[of j idx s s'] by blast

theorem no_mutation_on_failure_witness:
  "holes_empty (fst (board_two_pegs, [])) \<and>
   solve 3 (board_two_pegs, []) = Some (Inr (False, (board_two_pegs, []))) \<and>
   dfs 3 {} (board_two_pegs, []) =
     Some (Inr (False, {17592186044416, 105553116266496}, (board_two_pegs, []))) \<and>
   (\<exists>s. find_empties (init_state grid_stuck) = Inr s \<and> dfs_rec 2 0 s = Some (Inr (False, s)))"
proof -
  have h: "holes_empty (fst (board_two_pegs, []))" by code_simp
  have 1: "solve 3 (board_two_pegs, []) = Some (Inr (False, (board_two_pegs, [])))" by code_simp
  have 2: "dfs 3 {} (board_two_pegs, []) =
     Some (Inr (False, {17592186044416, 105553116266496}, (board_two_pegs, [])))" by code_simp
  have "case find_empties (init_state grid_stuck) of Inl e \<Rightarrow> False
        | Inr s \<Rightarrow> dfs_rec 2 0 s = Some (Inr (False, s))"
    by code_simp
  then obtain s s' where 3: "find_empties (init_state grid_stuck) = Inr s"
    and 4: "dfs_rec 2 0 s = Some (Inr (False, s'))"
    by (cases "find_empties (init_state grid_stuck)") auto
  from no_mutation_on_failure[of "(board_two_pegs, [])" 3 "(board_two_pegs, [])"
      "(board_two_pegs, [])" 3 "{}" "{17592186044416, 105553116266496}" "(board_two_pegs, [])"
      2 0 s s'] 4
  have "s' = s" by blast
  with h 1 2 3 4 show ?thesis by blast
qed
text \<open>
  C2 (undo exactness). For a peg board and a move \<open>m\<close> returned by
  \<open>get_valid_moves\<close> (of either file) on it, \<open>make_move\<close> followed by \<open>undo_move\<close>
  succeeds and gives back the move list and a board with the same encoding; when the
  empty holes of the board hold \<open>EMPTY\<close> it gives back the same cell values. For a
  Sudoku state, an empty cell and a digit \<open>d\<close> returned by \<open>validMove\<close> for it, placing
  \<open>d\<close> and undoing the placement gives back the state.
\<close>

theorem undo_exactness:
  "((get_valid_moves b = Inr vs \<or> get_valid_moves_eu b = Inr vs) \<longrightarrow> m \<in> set vs \<longrightarrow>
      (\<exists>st1 b'. make_move (b, ms) m = Inr st1 \<and> undo_move st1 = Inr (b', ms) \<and>
         encode_board b' = encode_board b \<and> (holes_empty b \<longrightarrow> b' = b))) \<and>
   (grid_get (board s) r c = Inr (CHR ''.'') \<longrightarrow> validMove s (r, c) = Inr mv \<longrightarrow> d \<in> set mv \<longrightarrow>
      (\<exists>s1. place s r c d = Inr s1 \<and> unplace s1 r c d = Inr s))"
proof (intro conjI impI)
  assume "get_valid_moves b = Inr vs \<or> get_valid_moves_eu b = Inr vs" and "m \<in> set vs"
  then have "legal b m"
    by (auto intro: get_valid_moves_sound get_valid_moves_eu_sound)
  from make_undo_legal[OF this, of ms]
  show "\<exists>st1 b'. make_move (b, ms) m = Inr st1 \<and> undo_move st1 = Inr (b', ms) \<and>
         encode_board b' = encode_board b \<and> (holes_empty b \<longrightarrow> b' = b)"
    by (blast intro: encode_board_bits)
next
  assume "grid_get (board s) r c = Inr (CHR ''.'')" "validMove s (r, c) = Inr mv" "d \<in> set mv"
  then show "\<exists>s1. place s r c d = Inr s1 \<and> unplace s1 r c d = Inr s"
    by (blast intro: place_unplace validMove_mem)
qed

theorem undo_exactness_witness:
  "get_valid_moves board_two_pegs = Inr [(0, 2, ''d'', 2)] \<and>
   holes_empty board_two_pegs \<and>
   (\<exists>st1. make_move (board_two_pegs, []) (0, 2, ''d'', 2) = Inr st1 \<and>
      undo_move st1 = Inr (board_two_pegs, [])) \<and>
   (\<exists>s s1. find_empties (init_state grid_one_hole) = Inr s \<and>
      grid_get (board s) 0 0 = Inr (CHR ''.'') \<and> validMove s (0, 0) = Inr ''5'' \<and>
      place s 0 0 (CHR ''5'') = Inr s1 \<and> unplace s1 0 0 (CHR ''5'') = Inr s)"
proof -
  have 1: "get_valid_moves board_two_pegs = Inr [(0, 2, ''d'', 2)]" by code_simp
  have h: "holes_empty board_two_pegs" by code_simp
  have "case find_empties (init_state grid_one_hole) of Inl e \<Rightarrow> False
        | Inr s \<Rightarrow> grid_get (board s) 0 0 = Inr (CHR ''.'') \<and> validMove s (0, 0) = Inr ''5''"
    by code_simp
  then obtain s where 2: "find_empties (init_state grid_one_hole) = Inr s"
    and 3: "grid_get (board s) 0 0 = Inr (CHR ''.'')" and 4: "validMove s (0, 0) = Inr ''5''"
    by (cases "find_empties (init_state grid_one_hole)") auto
  from undo_exactness[of board_two_pegs "[(0, 2, ''d'', 2)]" "(0, 2, ''d'', 2)" "[]" s 0 0 "''5''" "CHR ''5''"]
    1 h 2 3 4
  show ?thesis by auto
qed
text \<open>
  C3 (completeness of the move enumeration). On \<open>board_fork\<close> the peg at \<open>(3, 3)\<close> can
  jump up and can jump left. \<open>get_valid_moves\<close> of \<open>dfs.py\<close>, an \<open>if\<close>/\<open>elif\<close> chain,
  returns only the jump up for it and so misses a legal move; \<open>get_valid_moves\<close> of
  \<open>search-sep.py\<close>, four separate \<open>if\<close>s, returns both.
\<close>

theorem british_enumeration_misses_a_legal_move:
  "legal board_fork (3, 3, ''w'', 2) \<and> legal board_fork (3, 3, ''a'', 3) \<and>
   get_valid_moves board_fork = Inr [(2, 3, ''s'', 1), (3, 2, ''d'', 1), (3, 3, ''w'', 2)] \<and>
   ((3, 3, ''a'', 3) :: move) \<notin> set [(2, 3, ''s'', 1), (3, 2, ''d'', 1), (3, 3, ''w'', 2)] \<and>
   get_valid_moves_eu board_fork =
     Inr [(2, 3, ''s'', 1), (3, 2, ''d'', 1), (3, 3, ''w'', 2), (3, 3, ''a'', 3)]"
  by code_simp

text \<open>
  C4 (clone isolation in \<open>bfs\<close>). One expansion step on the board of \<open>__main__\<close>: the
  move is applied to the global board, which is the root's board, and that board
  changes; the board of the clone that is enqueued is still the dequeued board, and only
  the clone's move list has changed.
\<close>

theorem bfs_apply_writes_the_root_board:
  "expand_move \<lparr>node_board = board_european, node_moves = [], node_lvl = 0, node_idx = 0\<rparr> 1
     (board_european, [], {}, 0) (4, 4, ''s'', 32) =
   Inr ([[0, 0, 1, 2, 3, 0, 0],
         [0, 4, 5, 6, 7, 8, 0],
         [9, 10, 11, 12, 13, 14, 15],
         [16, 17, 18, 36, 19, 20, 21],
         [22, 23, 24, 25, - 1, 27, 28],
         [0, 29, 30, 31, - 1, 33, 0],
         [0, 0, 34, 35, 26, 0, 0]],
        [\<lparr>node_board = board_european, node_moves = [(6, 4, ''s'', 32)], node_lvl = 1, node_idx = 0\<rparr>],
        {board_european}, 1) \<and>
   [[0, 0, 1, 2, 3, 0, 0],
    [0, 4, 5, 6, 7, 8, 0],
    [9, 10, 11, 12, 13, 14, 15],
    [16, 17, 18, 36, 19, 20, 21],
    [22, 23, 24, 25, - 1, 27, 28],
    [0, 29, 30, 31, - 1, 33, 0],
    [0, 0, 34, 35, 26, 0, 0]] \<noteq> board_european"
  by code_simp

text \<open>
  C5 (minimality of \<open>bfs\<close>). On \<open>board_two_pegs\<close> one move leaves a single peg, which
  \<open>is_solved\<close> of \<open>search-sep.py\<close> accepts, so a solution of length one exists; \<open>bfs\<close>
  returns \<open>None\<close>, whatever the fuel beyond two iterations.
\<close>

theorem bfs_returns_none_on_a_solvable_board:
  "get_valid_moves_eu board_two_pegs = Inr [(0, 2, ''d'', 2)] \<and>
   (\<exists>b1 ms1. make_move (board_two_pegs, []) (0, 2, ''d'', 2) = Inr (b1, ms1) \<and>
      truthy (is_solved_eu b1) \<and>
      (\<forall>n. bfs (Suc (Suc n)) (board_two_pegs, []) = Some (Inr (None, b1))))"
  using two_pegs_one_move_solves
  by (simp add: two_pegs_moves bfs_def two_pegs_not_solved two_pegs_expand del: expand.simps)
text \<open>
  C7 (termination). Given enough fuel each search returns, with a result or with an
  exception, so that no run of it goes on for ever; the fuel that is enough is bounded by
  the measure that each step of the search decreases.
  For \<open>solve\<close> of \<open>dfs.py\<close>, on a board whose empty holes hold \<open>EMPTY\<close>, the
  measure is the number of pegs: every move that \<open>get_valid_moves\<close> returns is applied
  without an exception and leaves exactly one peg less.
  For \<open>dfs_rec\<close> it is the number of cells of \<open>empties\<close> from \<open>idx\<close> on, which for
  \<open>solveSudoku\<close> is the number of empty cells of the grid: placing a value other than
  \<open>'.'\<close> in an empty cell leaves exactly one empty cell less.
  For \<open>solve_map\<close>, on a puzzle whose bridges have zero to three wires each, such as a
  puzzle that has no bridge yet, it is the number of wires that can still be added
  between neighbouring islands, at most three for each island and direction with a
  neighbour: every \<open>add_bridge\<close> that \<open>can_build_bridge\<close> allows leaves such a
  puzzle, takes two from the bridges that the islands still require (one for each end)
  and leaves fewer wires that can be added.
\<close>

theorem search_terminates:
  "(holes_empty b \<longrightarrow> pegs b < n \<longrightarrow> solve n (b, ms) \<noteq> None) \<and>
   (get_valid_moves b = Inr vs \<longrightarrow> m \<in> set vs \<longrightarrow>
      (\<exists>st1. make_move (b, ms) m = Inr st1 \<and> Suc (pegs (fst st1)) = pegs b)) \<and>
   (length (empties s) - idx < k \<longrightarrow> dfs_rec k idx s \<noteq> None) \<and>
   (length (empty_cells g) < k \<longrightarrow> solveSudoku k g \<noteq> None) \<and>
   (grid_get (board s) r c = Inr (CHR ''.'') \<longrightarrow> d \<noteq> CHR ''.'' \<longrightarrow> place s r c d = Inr s1 \<longrightarrow>
      Suc (length (empty_cells (board s1))) = length (empty_cells (board s))) \<and>
   (bridges_ok p \<longrightarrow> room p < j \<longrightarrow> solve_map j p i \<noteq> None) \<and>
   (edges p = [] \<longrightarrow> solve_map (Suc (3 * length (slots p))) p i \<noteq> None) \<and>
   (bridges_ok p \<longrightarrow> can_build_bridge p i dir = Inr True \<longrightarrow> add_bridge p i dir = Inr p1 \<longrightarrow>
      bridges_ok p1 \<and> need p1 = need p - 2 \<and> room p1 < room p)"
proof (intro conjI impI)
  assume "holes_empty b" "pegs b < n"
  then show "solve n (b, ms) \<noteq> None" using solve_total[of "(b, ms)" n] by simp
next
  assume "get_valid_moves b = Inr vs" "m \<in> set vs"
  then have l: "legal b m" by (rule get_valid_moves_sound)
  from make_undo_legal[OF l, of ms] obtain st1 where mk: "make_move (b, ms) m = Inr st1" by blast
  from make_move_pegs[OF l mk] mk
  show "\<exists>st1. make_move (b, ms) m = Inr st1 \<and> Suc (pegs (fst st1)) = pegs b" by blast
next
  assume "length (empties s) - idx < k"
  then show "dfs_rec k idx s \<noteq> None" by (rule dfs_rec_total)
next
  assume "length (empty_cells g) < k"
  then show "solveSudoku k g \<noteq> None" by (rule solveSudoku_total)
next
  assume "grid_get (board s) r c = Inr (CHR ''.'')" "d \<noteq> CHR ''.''" "place s r c d = Inr s1"
  then show "Suc (length (empty_cells (board s1))) = length (empty_cells (board s))"
    by (rule place_fills_one)
next
  assume "bridges_ok p" "room p < j"
  then show "solve_map j p i \<noteq> None" by (rule solve_map_total)
next
  assume e: "edges p = []"
  then have ok: "bridges_ok p" by (simp add: bridges_ok_def)
  from room_bound[OF ok] have "room p < Suc (3 * length (slots p))" by simp
  with ok show "solve_map (Suc (3 * length (slots p))) p i \<noteq> None" by (rule solve_map_total)
next
  assume a: "bridges_ok p" "can_build_bridge p i dir = Inr True" "add_bridge p i dir = Inr p1"
  from add_bridge_room[OF a] show "bridges_ok p1" by simp
  from add_bridge_need[OF a] show "need p1 = need p - 2" .
  from add_bridge_room[OF a] show "room p1 < room p" by simp
qed

theorem search_terminates_witness:
  "holes_empty board_two_pegs \<and> pegs board_two_pegs < 3 \<and>
   solve 3 (board_two_pegs, []) \<noteq> None \<and>
   get_valid_moves board_two_pegs = Inr [(0, 2, ''d'', 2)] \<and>
   (\<exists>st1. make_move (board_two_pegs, []) (0, 2, ''d'', 2) = Inr st1 \<and>
      Suc (pegs (fst st1)) = pegs board_two_pegs) \<and>
   length (empty_cells grid_one_hole) < 2 \<and> solveSudoku 2 grid_one_hole \<noteq> None \<and>
   edges puzzle_two_islands = [] \<and> bridges_ok puzzle_two_islands \<and>
   solve_map (Suc (3 * length (slots puzzle_two_islands))) puzzle_two_islands 0 \<noteq> None \<and>
   can_build_bridge puzzle_two_islands 0 RIGHT = Inr True \<and>
   (\<exists>p1. add_bridge puzzle_two_islands 0 RIGHT = Inr p1 \<and>
      need p1 = need puzzle_two_islands - 2 \<and> room p1 < room puzzle_two_islands)"
proof -
  have 1: "holes_empty board_two_pegs" by code_simp
  have 2: "pegs board_two_pegs < 3" by code_simp
  have 3: "get_valid_moves board_two_pegs = Inr [(0, 2, ''d'', 2)]" by code_simp
  have 4: "length (empty_cells grid_one_hole) < 2" by code_simp
  have 5: "edges puzzle_two_islands = []" by code_simp
  have 6: "bridges_ok puzzle_two_islands" by code_simp
  have 7: "can_build_bridge puzzle_two_islands 0 RIGHT = Inr True" by code_simp
  have "case add_bridge puzzle_two_islands 0 RIGHT of Inl e \<Rightarrow> False | Inr p1 \<Rightarrow> True" by code_simp
  then obtain p1 where 8: "add_bridge puzzle_two_islands 0 RIGHT = Inr p1"
    by (cases "add_bridge puzzle_two_islands 0 RIGHT") auto
  note inst = search_terminates[of board_two_pegs 3 "[]" "[(0, 2, ''d'', 2)]" "(0, 2, ''d'', 2)"
      "init_state grid_one_hole" 0 2 grid_one_hole 0 0 "CHR ''5''" "init_state grid_one_hole"
      puzzle_two_islands "Suc (3 * length (slots puzzle_two_islands))" 0 RIGHT p1]
  from inst 1 2 have a: "solve 3 (board_two_pegs, []) \<noteq> None" by blast
  from inst 3 have b: "\<exists>st1. make_move (board_two_pegs, []) (0, 2, ''d'', 2) = Inr st1 \<and>
      Suc (pegs (fst st1)) = pegs board_two_pegs" by simp
  from inst 4 have c: "solveSudoku 2 grid_one_hole \<noteq> None" by blast
  from inst 5 have d: "solve_map (Suc (3 * length (slots puzzle_two_islands))) puzzle_two_islands 0 \<noteq> None"
    by blast
  from inst 6 7 8 have e: "need p1 = need puzzle_two_islands - 2 \<and> room p1 < room puzzle_two_islands"
    by blast
  from 1 2 a 3 b 4 c 5 6 d 7 8 e show ?thesis by blast
qed


text \<open>
  C9 (one empty cell). For a grid of nine rows of nine cells whose only empty cell is
  \<open>(r, c)\<close>, with exactly eight of the digits 1 to 9 present in the row, the column and
  the 3x3 box of that cell: \<open>find_empties\<close> succeeds and lists that one cell;
  \<open>validMove\<close> returns exactly one digit for it, and this digit is one of 1 to 9 that
  is present neither in the row, nor in the column, nor in the 3x3 box of the cell; placing
  it writes it in that cell, after which the test \<open>idx == len(empties)\<close> of \<open>dfs_rec\<close>
  holds, no cell of the board is empty, and \<open>dfs_rec(0)\<close> returns \<open>True\<close> with that
  board.
\<close>

theorem single_empty_cell_scenario:
  "nine_by_nine g \<longrightarrow> empty_cells g = [(r, c)] \<longrightarrow>
   length (filter (\<lambda>d. d \<in> peers g r c) ''123456789'') = 8 \<longrightarrow>
   (\<exists>s d s1. find_empties (init_state g) = Inr s \<and> empties s = [(r, c)] \<and>
      d \<in> set ''123456789'' \<and> d \<notin> peers g r c \<and>
      validMove s (r, c) = Inr [d] \<and> place s r c d = Inr s1 \<and>
      board s1 = g[r := (g ! r)[c := d]] \<and>
      dfs_rec (Suc n) 1 s1 = Some (Inr (True, s1)) \<and> empty_cells (board s1) = [] \<and>
      dfs_rec (Suc (Suc n)) 0 s = Some (Inr (True, s1)))"
  using single_empty_cell[of g r c n] by blast

theorem single_empty_cell_scenario_witness:
  "nine_by_nine grid_one_hole \<and> empty_cells grid_one_hole = [(0, 0)] \<and>
   length (filter (\<lambda>d. d \<in> peers grid_one_hole 0 0) ''123456789'') = 8 \<and>
   (\<exists>s d s1. find_empties (init_state grid_one_hole) = Inr s \<and>
      d \<in> set ''123456789'' \<and> d \<notin> peers grid_one_hole 0 0 \<and>
      validMove s (0, 0) = Inr [d] \<and> place s 0 0 d = Inr s1 \<and>
      dfs_rec 2 0 s = Some (Inr (True, s1)))"
proof -
  have 1: "nine_by_nine grid_one_hole" by code_simp
  have 2: "empty_cells grid_one_hole = [(0, 0)]" by code_simp
  have 3: "length (filter (\<lambda>d. d \<in> peers grid_one_hole 0 0) ''123456789'') = 8" by code_simp
  from single_empty_cell_scenario[of grid_one_hole 0 0 0] 1 2 3
  show ?thesis by (simp only: One_nat_def numeral_2_eq_2) blast
qed
text \<open>
  C10 (the sets follow the board). On a board of nine rows of nine cells \<open>find_empties\<close>
  does not fail and leaves the board as it is, with nine sets of each kind such that, for
  every cell \<open>(i, j)\<close>, \<open>rows[i]\<close> is the set of the values present in row \<open>i\<close>,
  \<open>cols[j]\<close> that of column \<open>j\<close> and \<open>boxes[(i // 3) * 3 + j // 3]\<close> that of the nine
  cells of the 3x3 box of \<open>(i, j)\<close>. From a state where this holds, placing at an empty
  cell a digit returned by \<open>validMove\<close> gives such a state again; the undo that
  \<open>dfs_rec\<close> runs after a failed recursive call gives back the state before the
  placement; and every state \<open>dfs_rec\<close> returns is such a state.
\<close>

theorem sets_follow_the_board:
  "(nine_by_nine g \<longrightarrow> (\<exists>s0. find_empties (init_state g) = Inr s0 \<and> board s0 = g \<and> agrees s0)) \<and>
   (nine_by_nine (board s) \<longrightarrow> agrees s \<longrightarrow> grid_get (board s) r c = Inr (CHR ''.'') \<longrightarrow>
      validMove s (r, c) = Inr mv \<longrightarrow> d \<in> set mv \<longrightarrow>
      (\<exists>s1. place s r c d = Inr s1 \<and> nine_by_nine (board s1) \<and> agrees s1 \<and>
         unplace s1 r c d = Inr s \<and>
         (\<forall>k i s2. dfs_rec k i s1 = Some (Inr (False, s2)) \<longrightarrow> unplace s2 r c d = Inr s))) \<and>
   (nine_by_nine (board s) \<longrightarrow> agrees s \<longrightarrow> dfs_rec n idx s = Some (Inr (ok, s')) \<longrightarrow>
      nine_by_nine (board s') \<and> agrees s')"
proof (intro conjI impI)
  assume g: "nine_by_nine g"
  from find_empties_total[OF g] obtain s0 where fe: "find_empties (init_state g) = Inr s0" by blast
  from find_empties_spec[OF fe] have t: "tracked s0" and b: "board s0 = g" by simp_all
  from t b g have "agrees s0" by (simp add: tracked_agrees)
  with fe b show "\<exists>s0. find_empties (init_state g) = Inr s0 \<and> board s0 = g \<and> agrees s0" by blast
next
  assume g: "nine_by_nine (board s)" and a: "agrees s"
    and e: "grid_get (board s) r c = Inr (CHR ''.'')"
    and mv: "validMove s (r, c) = Inr mv" and d: "d \<in> set mv"
  from a g have t: "tracked s" by (simp add: tracked_agrees)
  from place_unplace[OF validMove_mem[OF mv d] e] obtain s1 where
    p: "place s r c d = Inr s1" and u: "unplace s1 r c d = Inr s" by blast
  from place_tracked[OF t e validMove_not_dot[OF mv d] p] have t1: "tracked s1" .
  from place_nine[OF p] g have g1: "nine_by_nine (board s1)" by simp
  from t1 g1 have a1: "agrees s1" by (simp add: tracked_agrees)
  have "unplace s2 r c d = Inr s" if "dfs_rec k i s1 = Some (Inr (False, s2))" for k i s2
    using dfs_rec_fail[OF that] u by simp
  with p g1 a1 u show "\<exists>s1. place s r c d = Inr s1 \<and> nine_by_nine (board s1) \<and> agrees s1 \<and>
         unplace s1 r c d = Inr s \<and>
         (\<forall>k i s2. dfs_rec k i s1 = Some (Inr (False, s2)) \<longrightarrow> unplace s2 r c d = Inr s)"
    by blast
next
  assume g: "nine_by_nine (board s)" and a: "agrees s" and r: "dfs_rec n idx s = Some (Inr (ok, s'))"
  from dfs_rec_nine[OF r] g show g': "nine_by_nine (board s')" by simp
  from a g have "tracked s" by (simp add: tracked_agrees)
  from dfs_rec_tracked[OF this r] g' show "agrees s'" by (simp add: tracked_agrees)
qed

theorem sets_follow_the_board_witness:
  "nine_by_nine grid_one_hole \<and>
   (\<exists>s0 s1 s'. find_empties (init_state grid_one_hole) = Inr s0 \<and> agrees s0 \<and>
      grid_get (board s0) 0 0 = Inr (CHR ''.'') \<and> validMove s0 (0, 0) = Inr ''5'' \<and>
      place s0 0 0 (CHR ''5'') = Inr s1 \<and> agrees s1 \<and> unplace s1 0 0 (CHR ''5'') = Inr s0 \<and>
      dfs_rec 2 0 s0 = Some (Inr (True, s')) \<and> agrees s')"
proof -
  have 1: "nine_by_nine grid_one_hole" by code_simp
  have "case find_empties (init_state grid_one_hole) of Inl e \<Rightarrow> False
        | Inr s \<Rightarrow> grid_get (board s) 0 0 = Inr (CHR ''.'') \<and> validMove s (0, 0) = Inr ''5'' \<and>
            (case dfs_rec 2 0 s of Some (Inr (ok, s')) \<Rightarrow> ok | _ \<Rightarrow> False)"
    by code_simp
  then obtain s0 s' where 2: "find_empties (init_state grid_one_hole) = Inr s0"
    and 3: "grid_get (board s0) 0 0 = Inr (CHR ''.'')" and 4: "validMove s0 (0, 0) = Inr ''5''"
    and 5: "dfs_rec 2 0 s0 = Some (Inr (True, s'))"
    by (cases "find_empties (init_state grid_one_hole)"; cases "dfs_rec 2 0 (projr (find_empties (init_state grid_one_hole)))")
       (auto split: sum.splits)
  note inst = sets_follow_the_board[of grid_one_hole s0 0 0 "''5''" "CHR ''5''" 2 0 True s']
  from inst 1 2 have b0: "board s0 = grid_one_hole" and a0: "agrees s0" by auto
  from b0 1 have g0: "nine_by_nine (board s0)" by simp
  from inst g0 a0 3 4 obtain s1 where 6: "place s0 0 0 (CHR ''5'') = Inr s1" "agrees s1"
    "unplace s1 0 0 (CHR ''5'') = Inr s0" by auto
  from inst g0 a0 5 have "agrees s'" by blast
  with 1 2 a0 3 4 5 6 show ?thesis by blast
qed

end
